theory Spec2Isabelle
  imports Complex_Main "HOL-Library.While_Combinator"
begin

section \<open>The maze generator of \<open>turtle_maze.py\<close>\<close>

text \<open>
  The development embeds \<open>MazeGenerator\<close>: its constructor, the iterative
  depth-first carving, the double breadth-first search and \<open>generate\<close>.
  The turtle drawing code is left out except for the guard at the head of \<open>draw\<close>.
  Floats (\<open>complexity\<close>, \<open>difficulty\<close>, the result of \<open>random.random()\<close>) are
  rationals: the code only multiplies them by a small integer and compares them, and
  the literals \<open>0.1\<close> and \<open>0.5\<close> compare with every double as the rationals
  \<open>1/10\<close> and \<open>1/2\<close> do (no double lies between \<open>1/10\<close> and the double nearest
  to it).
\<close>

subsection \<open>Directions and cells\<close>

datatype dir = N | S | E | W

fun OPPOSITE :: "dir \<Rightarrow> dir" where
  "OPPOSITE N = S"
| "OPPOSITE S = N"
| "OPPOSITE E = W"
| "OPPOSITE W = E"

fun DIR_VEC :: "dir \<Rightarrow> int \<times> int" where
  "DIR_VEC N = (-1, 0)"
| "DIR_VEC S = (1, 0)"
| "DIR_VEC E = (0, 1)"
| "DIR_VEC W = (0, -1)"

text \<open>The keys of \<open>DIR_VEC\<close> in the order \<open>DIR_VEC.items()\<close> yields them
  (a dict iterates in insertion order).\<close>

definition DIR_VEC_items :: "dir list" where
  "DIR_VEC_items = [N, S, E, W]"

text \<open>A cell is the dict \<open>{N: .., S: .., E: .., W: ..}\<close>: all four keys are
  always present, so it is a total function; \<open>True\<close> is a wall.\<close>

type_synonym cell = "dir \<Rightarrow> bool"

type_synonym pos = "int \<times> int"

datatype error = ValueError string | IndexError

subsection \<open>Python list indexing\<close>

text \<open>\<open>xs[i]\<close>: a negative index counts from the end, an index out of range
  raises \<open>IndexError\<close>.\<close>

definition py_index :: "nat \<Rightarrow> int \<Rightarrow> error + nat" where
  "py_index n i =
     (let j = (if i < 0 then int n + i else i)
      in if 0 \<le> j \<and> j < int n then Inr (nat j) else Inl IndexError)"

text \<open>\<open>a[r][c]\<close> and \<open>a[r][c] = v\<close> on a list of lists.\<close>

definition get2 :: "'a list list \<Rightarrow> pos \<Rightarrow> error + 'a" where
  "get2 a p =
     (case py_index (length a) (fst p) of
        Inl e \<Rightarrow> Inl e
      | Inr i \<Rightarrow>
          (case py_index (length (a ! i)) (snd p) of
             Inl e \<Rightarrow> Inl e
           | Inr j \<Rightarrow> Inr (a ! i ! j)))"

definition set2 :: "'a list list \<Rightarrow> pos \<Rightarrow> 'a \<Rightarrow> error + 'a list list" where
  "set2 a p v =
     (case py_index (length a) (fst p) of
        Inl e \<Rightarrow> Inl e
      | Inr i \<Rightarrow>
          (case py_index (length (a ! i)) (snd p) of
             Inl e \<Rightarrow> Inl e
           | Inr j \<Rightarrow> Inr (a[i := (a ! i)[j := v]])))"

text \<open>\<open>grid[r][c][d] = b\<close>: the cell dict is fetched and updated in place.\<close>

definition set_wall :: "cell list list \<Rightarrow> pos \<Rightarrow> dir \<Rightarrow> bool \<Rightarrow> error + cell list list" where
  "set_wall g p d b =
     (case get2 g p of
        Inl e \<Rightarrow> Inl e
      | Inr cl \<Rightarrow> set2 g p (cl(d := b)))"

text \<open>\<open>int(x)\<close> on a float truncates toward zero; \<open>xs[:k]\<close> is a fresh list.\<close>

definition py_int :: "rat \<Rightarrow> int" where
  "py_int x = (if x < 0 then \<lceil>x\<rceil> else \<lfloor>x\<rfloor>)"

definition py_slice_to :: "'a list \<Rightarrow> int \<Rightarrow> 'a list" where
  "py_slice_to xs k =
     (if 0 \<le> k then take (nat k) xs else take (nat (int (length xs) + k)) xs)"

text \<open>
  A float is an IEEE double, held here as the rational number it stands for. An
  arithmetic operation returns its exact result rounded to the nearest double, a tie
  going to the even significand (\<open>float_round\<close>). The doubles of magnitude in
  \<open>[2\<^sup>e, 2\<^sup>e\<^sup>+\<^sup>1)\<close> are the multiples of \<open>2\<^sup>e\<^sup>-\<^sup>5\<^sup>2\<close>, and below \<open>2\<^sup>-\<^sup>1\<^sup>0\<^sup>2\<^sup>2\<close> they
  are the multiples of \<open>2\<^sup>-\<^sup>1\<^sup>0\<^sup>7\<^sup>4\<close>; \<open>binade x\<close> is the \<open>e\<close> of a positive
  \<open>x\<close>, and \<open>bit_length\<close> is \<open>int.bit_length\<close>. Overflow to infinity is left
  out: the one product taken by the program is a list length, at most 4, times a
  complexity in \<open>[0, 1]\<close>.
\<close>

fun bit_length :: "nat \<Rightarrow> nat" where
  "bit_length n = (if n = 0 then 0 else Suc (bit_length (n div 2)))"

definition binade :: "rat \<Rightarrow> int" where
  "binade x =
     (if 1 \<le> x then int (bit_length (nat \<lfloor>x\<rfloor>)) - 1
      else - int (bit_length (nat \<lceil>1 / x\<rceil> - 1)))"

definition round_half_even :: "rat \<Rightarrow> int" where
  "round_half_even x =
     (let f = \<lfloor>x\<rfloor>; r = x - of_int f
      in if r < 1 / 2 then f else if 1 / 2 < r then f + 1 else if even f then f else f + 1)"

definition float_round :: "rat \<Rightarrow> rat" where
  "float_round x =
     (if x = 0 then 0
      else let e = max (binade \<bar>x\<bar>) (- 1022); ulp = 2 powi (e - 52)
           in of_int (round_half_even (x / ulp)) * ulp)"

subsection \<open>The random module\<close>

text \<open>
  The state of the module-level generator is modelled by the sequence of raw values its
  primitives are going to return; each call of \<open>randbelow\<close> or \<open>random\<close> takes
  the head. Every sequence is allowed, so a statement for all generator states covers
  every seed and every outcome of a draw.
\<close>

type_synonym rng = "nat \<Rightarrow> nat"

definition rng_next :: "rng \<Rightarrow> nat \<times> rng" where
  "rng_next g = (g 0, \<lambda>i. g (Suc i))"

definition randbelow :: "nat \<Rightarrow> rng \<Rightarrow> nat \<times> rng" where
  "randbelow n g = (let (x, g') = rng_next g in (x mod n, g'))"

text \<open>\<open>random.random()\<close>: a multiple of \<open>2^-53\<close> in \<open>[0, 1)\<close>.\<close>

definition random :: "rng \<Rightarrow> rat \<times> rng" where
  "random g = (let (x, g') = rng_next g in (of_nat (x mod 2 ^ 53) / 2 ^ 53, g'))"

text \<open>\<open>random.randrange(n)\<close> raises \<open>ValueError\<close> on an empty range.\<close>

definition randrange :: "int \<Rightarrow> rng \<Rightarrow> error + int \<times> rng" where
  "randrange n g =
     (if n \<le> 0 then Inl (ValueError ''empty range for randrange()'')
      else let (x, g') = randbelow (nat n) g in Inr (int x, g'))"

text \<open>\<open>random.choice(xs)\<close>, called on a non-empty list only.\<close>

definition choice :: "'a list \<Rightarrow> rng \<Rightarrow> 'a \<times> rng" where
  "choice xs g = (let (i, g') = randbelow (length xs) g in (xs ! i, g'))"

text \<open>\<open>random.shuffle(x)\<close>:
  \<^verbatim>\<open>for i in reversed(range(1, len(x))): j = randbelow(i + 1); x[i], x[j] = x[j], x[i]\<close>\<close>

primrec shuffle_loop :: "nat \<Rightarrow> 'a list \<Rightarrow> rng \<Rightarrow> 'a list \<times> rng" where
  "shuffle_loop 0 xs g = (xs, g)"
| "shuffle_loop (Suc k) xs g =
     (let (j, g') = randbelow (Suc k + 1) g
      in shuffle_loop k (xs[Suc k := xs ! j, j := xs ! Suc k]) g')"

definition shuffle :: "'a list \<Rightarrow> rng \<Rightarrow> 'a list \<times> rng" where
  "shuffle xs g = shuffle_loop (length xs - 1) xs g"

subsection \<open>The maze object and its constructor\<close>

record maze =
  rows :: int
  cols :: int
  cell_size :: int
  complexity :: rat
  difficulty :: rat
  grid :: "cell list list"
  start :: "pos option"
  end_pos :: "pos option"

definition init :: "int \<Rightarrow> int \<Rightarrow> int \<Rightarrow> rat \<Rightarrow> rat \<Rightarrow> error + maze" where
  "init rws cls csz cx df =
     (if rws < 2 \<or> cls < 2 then Inl (ValueError ''Maze must have at least 2x2 cells'')
      else if \<not> (0 \<le> cx \<and> cx \<le> 1) then Inl (ValueError ''complexity must be between 0 and 1'')
      else if \<not> (0 \<le> df \<and> df \<le> 1) then Inl (ValueError ''difficulty must be between 0 and 1'')
      else Inr \<lparr>rows = rws, cols = cls, cell_size = csz, complexity = cx, difficulty = df,
                grid = replicate (nat rws) (replicate (nat cls) (\<lambda>_. True)),
                start = None, end_pos = None\<rparr>)"

text \<open>Reading the public attributes \<open>start\<close> and \<open>end\<close>: a plain attribute read,
  which cannot raise.\<close>

definition read_start :: "maze \<Rightarrow> error + pos option" where
  "read_start m = Inr (start m)"

definition read_end :: "maze \<Rightarrow> error + pos option" where
  "read_end m = Inr (end_pos m)"

definition in_bounds :: "maze \<Rightarrow> pos \<Rightarrow> bool" where
  "in_bounds m p \<longleftrightarrow> 0 \<le> fst p \<and> fst p < rows m \<and> 0 \<le> snd p \<and> snd p < cols m"

text \<open>The wall flag of an in-bounds cell.\<close>

definition wall :: "maze \<Rightarrow> pos \<Rightarrow> dir \<Rightarrow> bool" where
  "wall m p d = (grid m ! nat (fst p) ! nat (snd p)) d"

subsection \<open>Carving\<close>

text \<open>
  \<open>_unvisited_neighbours\<close>. The subscript \<open>visited[nr][nc]\<close> is evaluated only
  after the bounds test in the same condition, on the matrix that \<open>_carve_passage\<close>
  builds with \<open>rows\<close> rows and \<open>cols\<close> columns, so it is written as a plain
  lookup. The product \<open>len(neighbours) * self.complexity\<close> is a float product, rounded
  before \<open>int\<close> truncates it. \<open>random.shuffle\<close> is applied to the slice
  \<open>neighbours[:shuffle_portion]\<close>, a new list: it advances the generator, and its
  result is dropped.
\<close>

definition unvisited_neighbours ::
  "maze \<Rightarrow> int \<Rightarrow> int \<Rightarrow> bool list list \<Rightarrow> rng \<Rightarrow> (int \<times> int \<times> dir \<times> dir) list \<times> rng" where
  "unvisited_neighbours m r c visited g =
     (let neighbours =
            concat (map (\<lambda>direction.
              let (dr, dc) = DIR_VEC direction; nr = r + dr; nc = c + dc
              in if 0 \<le> nr \<and> nr < rows m \<and> 0 \<le> nc \<and> nc < cols m
                    \<and> \<not> visited ! nat nr ! nat nc
                 then [(nr, nc, direction, OPPOSITE direction)] else [])
              DIR_VEC_items);
          shuffle_portion = py_int (float_round (of_nat (length neighbours) * complexity m));
          (shuffled_copy, g') = shuffle (py_slice_to neighbours shuffle_portion) g
      in (neighbours, g'))"

record carve_state =
  self :: maze
  visited :: "bool list list"
  stack :: "pos list"
  rand :: rng

text \<open>One round of \<open>while stack:\<close>, for a non-empty stack: \<open>stack[-1]\<close> is
  \<open>last\<close>, \<open>neighbours[0]\<close> of a non-empty list is \<open>hd\<close>, \<open>append\<close> adds at
  the end and \<open>pop\<close> removes the last element. The condition
  \<open>random.random() < self.complexity\<close> is evaluated before \<open>random.choice\<close>.\<close>

definition carve_step :: "carve_state \<Rightarrow> error + carve_state" where
  "carve_step st =
     (let (r, c) = last (stack st);
          (neighbours, g1) = unvisited_neighbours (self st) r c (visited st) (rand st)
      in if neighbours \<noteq> [] then
           let (u, g2) = random g1;
               ((nr, nc, here_dir, there_dir), g3) =
                  (if u < complexity (self st) then choice neighbours g2
                   else (hd neighbours, g2))
           in case set_wall (grid (self st)) (r, c) here_dir False of
                Inl e \<Rightarrow> Inl e
              | Inr gr1 \<Rightarrow>
                 (case set_wall gr1 (nr, nc) there_dir False of
                    Inl e \<Rightarrow> Inl e
                  | Inr gr2 \<Rightarrow>
                     (case set2 (visited st) (nr, nc) True of
                        Inl e \<Rightarrow> Inl e
                      | Inr vis \<Rightarrow>
                          Inr (st\<lparr>self := (self st)\<lparr>grid := gr2\<rparr>, visited := vis,
                                  stack := stack st @ [(nr, nc)], rand := g3\<rparr>)))
         else Inr (st\<lparr>stack := butlast (stack st), rand := g1\<rparr>))"

text \<open>The maze between the two assignments that knock down a wall pair: in the round
  that starts in \<open>st\<close>, \<open>carve_between st\<close> is \<open>self\<close> after
  \<open>self.grid[r][c][here_dir] = False\<close> and before
  \<open>self.grid[nr][nc][there_dir] = False\<close>; it is \<open>None\<close> in a round that pops.\<close>

definition carve_between :: "carve_state \<Rightarrow> (error + maze) option" where
  "carve_between st =
     (let (r, c) = last (stack st);
          (neighbours, g1) = unvisited_neighbours (self st) r c (visited st) (rand st)
      in if neighbours \<noteq> [] then
           let (u, g2) = random g1;
               ((nr, nc, here_dir, there_dir), g3) =
                  (if u < complexity (self st) then choice neighbours g2
                   else (hd neighbours, g2))
           in case set_wall (grid (self st)) (r, c) here_dir False of
                Inl e \<Rightarrow> Some (Inl e)
              | Inr gr1 \<Rightarrow> Some (Inr ((self st)\<lparr>grid := gr1\<rparr>))
         else None)"

text \<open>The \<open>while stack:\<close> loop. An exception ends it; \<open>None\<close> is a loop that
  never ends.\<close>

definition carve_cond :: "error + carve_state \<Rightarrow> bool" where
  "carve_cond x = (case x of Inl e \<Rightarrow> False | Inr st \<Rightarrow> stack st \<noteq> [])"

definition carve_body :: "error + carve_state \<Rightarrow> error + carve_state" where
  "carve_body x = (case x of Inl e \<Rightarrow> Inl e | Inr st \<Rightarrow> carve_step st)"

definition carve_loop :: "carve_state \<Rightarrow> (error + carve_state) option" where
  "carve_loop st = while_option carve_cond carve_body (Inr st)"

definition carve_start :: "maze \<Rightarrow> int \<Rightarrow> int \<Rightarrow> rng \<Rightarrow> error + carve_state" where
  "carve_start m start_r start_c g =
     (case set2 (replicate (nat (rows m)) (replicate (nat (cols m)) False))
             (start_r, start_c) True of
        Inl e \<Rightarrow> Inl e
      | Inr vis \<Rightarrow> Inr \<lparr>self = m, visited = vis, stack = [(start_r, start_c)], rand = g\<rparr>)"

definition carve_passage :: "maze \<Rightarrow> int \<Rightarrow> int \<Rightarrow> rng \<Rightarrow> (error + maze \<times> rng) option" where
  "carve_passage m start_r start_c g =
     (case carve_start m start_r start_c g of
        Inl e \<Rightarrow> Some (Inl e)
      | Inr st \<Rightarrow> map_option (map_sum id (\<lambda>st'. (self st', rand st'))) (carve_loop st))"

subsection \<open>The double breadth-first search\<close>

text \<open>The locals of the nested function \<open>bfs\<close>; \<open>dist_tab\<close> is its \<open>dist\<close>.\<close>

record bfs_state =
  dist_tab :: "int list list"
  q :: "pos list"
  parent :: "pos \<rightharpoonup> pos"
  farthest :: pos

text \<open>One round of \<open>for direction, (dr, dc) in DIR_VEC.items()\<close> for the cell
  \<open>rc\<close> taken from the queue. Neither subscript is guarded by a bounds test.\<close>

definition bfs_visit :: "maze \<Rightarrow> pos \<Rightarrow> dir \<Rightarrow> bfs_state \<Rightarrow> error + bfs_state" where
  "bfs_visit m rc direction st =
     (case get2 (grid m) rc of
        Inl e \<Rightarrow> Inl e
      | Inr cl \<Rightarrow>
          if cl direction then Inr st
          else
            let (dr, dc) = DIR_VEC direction; nr = fst rc + dr; nc = snd rc + dc
            in case get2 (dist_tab st) (nr, nc) of
                 Inl e \<Rightarrow> Inl e
               | Inr dn \<Rightarrow>
                   if dn = -1 then
                     (case get2 (dist_tab st) rc of
                        Inl e \<Rightarrow> Inl e
                      | Inr dc \<Rightarrow>
                          (case set2 (dist_tab st) (nr, nc) (dc + 1) of
                             Inl e \<Rightarrow> Inl e
                           | Inr dt \<Rightarrow>
                               Inr (st\<lparr>dist_tab := dt,
                                       parent := (parent st)((nr, nc) \<mapsto> rc),
                                       q := q st @ [(nr, nc)]\<rparr>)))
                   else Inr st)"

fun bfs_for :: "maze \<Rightarrow> pos \<Rightarrow> dir list \<Rightarrow> bfs_state \<Rightarrow> error + bfs_state" where
  "bfs_for m rc [] st = Inr st"
| "bfs_for m rc (d # ds) st =
     (case bfs_visit m rc d st of Inl e \<Rightarrow> Inl e | Inr st' \<Rightarrow> bfs_for m rc ds st')"

text \<open>One round of \<open>while q:\<close>. \<open>max(farthest, (r, c), key=...)\<close> keeps its
  first argument unless the second has a strictly larger key.\<close>

definition bfs_step :: "maze \<Rightarrow> bfs_state \<Rightarrow> error + bfs_state" where
  "bfs_step m st =
     (let rc = hd (q st)
      in case get2 (dist_tab st) (farthest st) of
           Inl e \<Rightarrow> Inl e
         | Inr kf \<Rightarrow>
             (case get2 (dist_tab st) rc of
                Inl e \<Rightarrow> Inl e
              | Inr kc \<Rightarrow>
                  bfs_for m rc DIR_VEC_items
                    (st\<lparr>q := tl (q st),
                        farthest := (if kf < kc then rc else farthest st)\<rparr>)))"

definition bfs_cond :: "error + bfs_state \<Rightarrow> bool" where
  "bfs_cond x = (case x of Inl e \<Rightarrow> False | Inr st \<Rightarrow> q st \<noteq> [])"

definition bfs_body :: "maze \<Rightarrow> error + bfs_state \<Rightarrow> error + bfs_state" where
  "bfs_body m x = (case x of Inl e \<Rightarrow> Inl e | Inr st \<Rightarrow> bfs_step m st)"

definition bfs_start :: "maze \<Rightarrow> pos \<Rightarrow> error + bfs_state" where
  "bfs_start m s =
     (case set2 (replicate (nat (rows m)) (replicate (nat (cols m)) (-1))) s 0 of
        Inl e \<Rightarrow> Inl e
      | Inr dt \<Rightarrow> Inr \<lparr>dist_tab = dt, q = [s], parent = Map.empty, farthest = s\<rparr>)"

definition bfs_loop :: "maze \<Rightarrow> bfs_state \<Rightarrow> (error + bfs_state) option" where
  "bfs_loop m st = while_option bfs_cond (bfs_body m) (Inr st)"

definition bfs :: "maze \<Rightarrow> pos \<Rightarrow> (error + pos \<times> int list list \<times> (pos \<rightharpoonup> pos)) option" where
  "bfs m s =
     (case bfs_start m s of
        Inl e \<Rightarrow> Some (Inl e)
      | Inr st \<Rightarrow>
          map_option (map_sum id (\<lambda>st'. (farthest st', dist_tab st', parent st')))
            (bfs_loop m st))"

definition longest_path_endpoints :: "maze \<Rightarrow> (error + pos \<times> pos) option" where
  "longest_path_endpoints m =
     (case bfs m (0, 0) of
        None \<Rightarrow> None
      | Some (Inl e) \<Rightarrow> Some (Inl e)
      | Some (Inr (end_a, da, pa)) \<Rightarrow>
          (case bfs m end_a of
             None \<Rightarrow> None
           | Some (Inl e) \<Rightarrow> Some (Inl e)
           | Some (Inr (end_b, db, pb)) \<Rightarrow> Some (Inr (end_a, end_b))))"

subsection \<open>generate and the head of draw\<close>

definition generate :: "maze \<Rightarrow> rng \<Rightarrow> (error + maze \<times> rng) option" where
  "generate m g =
     (case randrange (rows m) g of
        Inl e \<Rightarrow> Some (Inl e)
      | Inr (start_r, g1) \<Rightarrow>
          (case randrange (cols m) g1 of
             Inl e \<Rightarrow> Some (Inl e)
           | Inr (start_c, g2) \<Rightarrow>
               (case carve_passage m start_r start_c g2 of
                  None \<Rightarrow> None
                | Some (Inl e) \<Rightarrow> Some (Inl e)
                | Some (Inr (m1, g3)) \<Rightarrow>
                    if difficulty m1 < 1 / 10 then
                      Some (Inr (m1\<lparr>start := Some (0, 0), end_pos := Some (1, 1)\<rparr>, g3))
                    else if difficulty m1 < 1 / 2 then
                      Some (Inr (m1\<lparr>start := Some (0, 0),
                                    end_pos := Some (rows m1 - 1, cols m1 - 1)\<rparr>, g3))
                    else
                      (case longest_path_endpoints m1 of
                         None \<Rightarrow> None
                       | Some (Inl e) \<Rightarrow> Some (Inl e)
                       | Some (Inr (a, b)) \<Rightarrow>
                           Some (Inr (m1\<lparr>start := Some a, end_pos := Some b\<rparr>, g3))))))"

text \<open>The first statement of \<open>draw\<close>, "generate if necessary"; the turtle calls
  that follow it are not modelled.\<close>

definition draw :: "maze \<Rightarrow> rng \<Rightarrow> (error + maze \<times> rng) option" where
  "draw m g = (if start m = None \<or> end_pos m = None then generate m g else Some (Inr (m, g)))"

section \<open>Graphs: distance, connectedness, cycles, trees\<close>

text \<open>
  The notions the claims are stated with. A graph is its adjacency predicate; the
  distance of two vertices is the length of a shortest walk; a cycle is a list of at
  least three distinct vertices, each adjacent to the next and the last to the first;
  an edge is the two-element set of its ends.
\<close>

definition gdist :: "('a \<Rightarrow> 'a \<Rightarrow> bool) \<Rightarrow> 'a \<Rightarrow> 'a \<Rightarrow> nat" where
  "gdist adj u v = (LEAST n. (adj ^^ n) u v)"

definition connected_on :: "'a set \<Rightarrow> ('a \<Rightarrow> 'a \<Rightarrow> bool) \<Rightarrow> bool" where
  "connected_on V adj \<longleftrightarrow> (\<forall>x\<in>V. \<forall>y\<in>V. adj\<^sup>*\<^sup>* x y)"

definition cycle :: "('a \<Rightarrow> 'a \<Rightarrow> bool) \<Rightarrow> 'a list \<Rightarrow> bool" where
  "cycle adj p \<longleftrightarrow>
     3 \<le> length p \<and> distinct p \<and> (\<forall>i<length p. adj (p ! i) (p ! (Suc i mod length p)))"

definition edge_pairs :: "('a \<Rightarrow> 'a \<Rightarrow> bool) \<Rightarrow> 'a set set" where
  "edge_pairs adj = {{x, y} | x y. adj x y}"

definition four_point :: "('a \<Rightarrow> 'a \<Rightarrow> nat) \<Rightarrow> 'a set \<Rightarrow> bool" where
  "four_point d V \<longleftrightarrow>
     (\<forall>x\<in>V. \<forall>y\<in>V. \<forall>z\<in>V. \<forall>w\<in>V. d x y + d z w \<le> max (d x z + d y w) (d x w + d y z))"

text \<open>Trees as they are grown by the carving loop: one vertex, then one new vertex
  joined to an old one at a time.\<close>

inductive ltree :: "'a set \<Rightarrow> ('a \<Rightarrow> 'a \<Rightarrow> bool) \<Rightarrow> bool" where
  ltree_single: "\<forall>x y. \<not> adj x y \<Longrightarrow> ltree {r} adj"
| ltree_leaf: "ltree V adj \<Longrightarrow> u \<in> V \<Longrightarrow> v \<notin> V \<Longrightarrow>
     \<forall>x y. adj' x y \<longleftrightarrow> adj x y \<or> (x = u \<and> y = v) \<or> (x = v \<and> y = u) \<Longrightarrow>
     ltree (insert v V) adj'"

section \<open>Views of the program state\<close>

text \<open>A list of lists of the right shape, read and written at an in-bounds position.\<close>

definition shape :: "int \<Rightarrow> int \<Rightarrow> 'a list list \<Rightarrow> bool" where
  "shape rws cls a \<longleftrightarrow> length a = nat rws \<and> (\<forall>row \<in> set a. length row = nat cls)"

definition nth2 :: "'a list list \<Rightarrow> pos \<Rightarrow> 'a" where
  "nth2 a p = a ! nat (fst p) ! nat (snd p)"

definition upd2 :: "'a list list \<Rightarrow> pos \<Rightarrow> 'a \<Rightarrow> 'a list list" where
  "upd2 a p v = a[nat (fst p) := (a ! nat (fst p))[nat (snd p) := v]]"

text \<open>The neighbour of a cell in a direction.\<close>

definition move :: "pos \<Rightarrow> dir \<Rightarrow> pos" where
  "move p d = (fst p + fst (DIR_VEC d), snd p + snd (DIR_VEC d))"

text \<open>The grid and the state after the loop has knocked down the wall pair between
  the top of the stack and its neighbour in direction \<open>d\<close> and pushed the neighbour.\<close>

definition open_wall_pair :: "cell list list \<Rightarrow> pos \<Rightarrow> dir \<Rightarrow> cell list list" where
  "open_wall_pair g p d =
     (let g1 = upd2 g p ((nth2 g p)(d := False))
      in upd2 g1 (move p d) ((nth2 g1 (move p d))(OPPOSITE d := False)))"

definition push_state :: "carve_state \<Rightarrow> dir \<Rightarrow> rng \<Rightarrow> carve_state" where
  "push_state st d g =
     st\<lparr>self := (self st)\<lparr>grid := open_wall_pair (grid (self st)) (last (stack st)) d\<rparr>,
        visited := upd2 (visited st) (move (last (stack st)) d) True,
        stack := stack st @ [move (last (stack st)) d],
        rand := g\<rparr>"

text \<open>What one direction adds to the list of \<open>_unvisited_neighbours\<close>.\<close>

definition candidate :: "maze \<Rightarrow> pos \<Rightarrow> bool list list \<Rightarrow> dir \<Rightarrow> (int \<times> int \<times> dir \<times> dir) list" where
  "candidate m p vis d =
     (if in_bounds m (move p d) \<and> \<not> nth2 vis (move p d)
      then [(fst (move p d), snd (move p d), d, OPPOSITE d)] else [])"

definition same_params :: "maze \<Rightarrow> maze \<Rightarrow> bool" where
  "same_params m m' \<longleftrightarrow>
     rows m = rows m' \<and> cols m = cols m' \<and> cell_size m = cell_size m' \<and>
     complexity m = complexity m' \<and> difficulty m = difficulty m' \<and>
     start m = start m' \<and> end_pos m = end_pos m'"

text \<open>The shape part of the loop invariant.\<close>

definition carve_base :: "maze \<Rightarrow> carve_state \<Rightarrow> bool" where
  "carve_base m0 st \<longleftrightarrow>
     same_params (self st) m0 \<and>
     shape (rows m0) (cols m0) (grid (self st)) \<and>
     shape (rows m0) (cols m0) (visited st) \<and>
     (\<forall>p \<in> set (stack st). in_bounds m0 p)"

text \<open>The open-wall graph: two in-bounds cells are adjacent if the first has no wall
  toward the second.\<close>

definition open_adj :: "maze \<Rightarrow> pos \<Rightarrow> pos \<Rightarrow> bool" where
  "open_adj m u v \<longleftrightarrow>
     in_bounds m u \<and> in_bounds m v \<and> (\<exists>d. v = move u d \<and> \<not> wall m u d)"

definition wall_symmetric :: "maze \<Rightarrow> bool" where
  "wall_symmetric m \<longleftrightarrow>
     (\<forall>p d. in_bounds m p \<and> in_bounds m (move p d) \<longrightarrow>
        wall m p d = wall m (move p d) (OPPOSITE d))"

definition border_closed :: "maze \<Rightarrow> bool" where
  "border_closed m \<longleftrightarrow> (\<forall>p d. in_bounds m p \<and> \<not> in_bounds m (move p d) \<longrightarrow> wall m p d)"

definition visited_set :: "maze \<Rightarrow> bool list list \<Rightarrow> pos set" where
  "visited_set m vis = {p. in_bounds m p \<and> nth2 vis p}"

definition unvisited_set :: "maze \<Rightarrow> bool list list \<Rightarrow> pos set" where
  "unvisited_set m vis = {p. in_bounds m p \<and> \<not> nth2 vis p}"

text \<open>The invariant of the carving loop: the open walls form a tree on the visited
  cells, the stack holds visited cells, and a visited cell that has left the stack has
  no unvisited neighbour.\<close>

definition carve_inv :: "maze \<Rightarrow> carve_state \<Rightarrow> bool" where
  "carve_inv m0 st \<longleftrightarrow>
     carve_base m0 st \<and> wall_symmetric (self st) \<and> border_closed (self st) \<and>
     ltree (visited_set m0 (visited st)) (open_adj (self st)) \<and>
     set (stack st) \<subseteq> visited_set m0 (visited st) \<and>
     (\<forall>p \<in> visited_set m0 (visited st). p \<notin> set (stack st) \<longrightarrow>
        (\<forall>d. in_bounds m0 (move p d) \<longrightarrow> move p d \<in> visited_set m0 (visited st)))"

definition carve_measure :: "maze \<Rightarrow> carve_state \<Rightarrow> nat" where
  "carve_measure m0 st = 2 * card (unvisited_set m0 (visited st)) + length (stack st)"

definition cells :: "maze \<Rightarrow> pos set" where
  "cells m = {p. in_bounds m p}"

definition carve_ok :: "maze \<Rightarrow> error + carve_state \<Rightarrow> bool" where
  "carve_ok m0 x = (case x of Inl e \<Rightarrow> False | Inr st \<Rightarrow> carve_inv m0 st)"

definition carve_size :: "maze \<Rightarrow> error + carve_state \<Rightarrow> nat" where
  "carve_size m0 x = (case x of Inl e \<Rightarrow> 0 | Inr st \<Rightarrow> carve_measure m0 st)"

text \<open>A maze as the constructor leaves it, and the states the carving loop reaches.\<close>

definition fresh :: "maze \<Rightarrow> bool" where
  "fresh m \<longleftrightarrow>
     2 \<le> rows m \<and> 2 \<le> cols m \<and> shape (rows m) (cols m) (grid m) \<and>
     (\<forall>p d. in_bounds m p \<longrightarrow> wall m p d)"

inductive carve_reach :: "carve_state \<Rightarrow> carve_state \<Rightarrow> bool" for st0 where
  reach_start: "carve_reach st0 st0"
| reach_step: "carve_reach st0 st \<Longrightarrow> stack st \<noteq> [] \<Longrightarrow> carve_step st = Inr st' \<Longrightarrow>
     carve_reach st0 st'"

text \<open>The concrete maze the theorems are instantiated at, and what carving from
  \<open>(0, 0)\<close> makes of it when every draw of the generator is 0.\<close>

definition maze_2x2 :: maze where
  "maze_2x2 = \<lparr>rows = 2, cols = 2, cell_size = 20, complexity = 1/2, difficulty = 1/2,
          grid = [[\<lambda>_. True, \<lambda>_. True], [\<lambda>_. True, \<lambda>_. True]],
          start = None, end_pos = None\<rparr>"

definition carved_2x2 :: maze where
  "carved_2x2 = maze_2x2\<lparr>grid :=
     [[(\<lambda>_. True)(S := False), (\<lambda>_. True)(S := False)],
      [(\<lambda>_. True)(N := False, E := False), (\<lambda>_. True)(W := False, N := False)]]\<rparr>"

text \<open>The same maze in the middle of the first round: the S wall of \<open>(0, 0)\<close> is
  down, the N wall of \<open>(1, 0)\<close> still stands.\<close>

definition between_2x2 :: maze where
  "between_2x2 = maze_2x2\<lparr>grid :=
     [[(\<lambda>_. True)(S := False), \<lambda>_. True], [\<lambda>_. True, \<lambda>_. True]]\<rparr>"

definition zero_rng :: rng where
  "zero_rng = (\<lambda>_. 0)"

text \<open>The cells the search has reached so far, and the state after it has reached the
  neighbour of \<open>rc\<close> in direction \<open>d\<close>.\<close>

definition discovered :: "maze \<Rightarrow> int list list \<Rightarrow> pos set" where
  "discovered m dt = {p. in_bounds m p \<and> nth2 dt p \<noteq> -1}"

definition discover :: "pos \<Rightarrow> dir \<Rightarrow> bfs_state \<Rightarrow> bfs_state" where
  "discover rc d st =
     st\<lparr>dist_tab := upd2 (dist_tab st) (move rc d) (nth2 (dist_tab st) rc + 1),
        parent := (parent st)(move rc d \<mapsto> rc),
        q := q st @ [move rc d]\<rparr>"

text \<open>A maze whose open-wall graph is a tree on all cells, with the border closed.\<close>

definition tree_maze :: "maze \<Rightarrow> bool" where
  "tree_maze m \<longleftrightarrow>
     shape (rows m) (cols m) (grid m) \<and> border_closed m \<and> ltree (cells m) (open_adj m)"

text \<open>The invariant of the search from \<open>s\<close>. Every reached cell holds its distance
  from \<open>s\<close> and, unless it is \<open>s\<close>, has a reached neighbour one step nearer;
  \<open>farthest\<close> is at least as far as every reached cell that has left the queue.\<close>

definition bfs_core :: "maze \<Rightarrow> pos \<Rightarrow> bfs_state \<Rightarrow> bool" where
  "bfs_core m s st \<longleftrightarrow>
     shape (rows m) (cols m) (dist_tab st) \<and>
     set (q st) \<subseteq> discovered m (dist_tab st) \<and>
     farthest st \<in> discovered m (dist_tab st) \<and>
     s \<in> discovered m (dist_tab st) \<and>
     (\<forall>p \<in> discovered m (dist_tab st). nth2 (dist_tab st) p = int (gdist (open_adj m) s p)) \<and>
     (\<forall>p \<in> discovered m (dist_tab st). p \<noteq> s \<longrightarrow>
        (\<exists>u \<in> discovered m (dist_tab st).
           open_adj m u p \<and> gdist (open_adj m) s p = Suc (gdist (open_adj m) s u))) \<and>
     (\<forall>p \<in> discovered m (dist_tab st). p \<notin> set (q st) \<longrightarrow>
        gdist (open_adj m) s p \<le> gdist (open_adj m) s (farthest st))"

text \<open>Between two rounds of \<open>while q:\<close>, and inside the \<open>for\<close> loop of the cell
  \<open>rc\<close> with the directions \<open>ds\<close> still to do.\<close>

definition bfs_inv :: "maze \<Rightarrow> pos \<Rightarrow> bfs_state \<Rightarrow> bool" where
  "bfs_inv m s st \<longleftrightarrow>
     bfs_core m s st \<and>
     (\<forall>p \<in> discovered m (dist_tab st). p \<notin> set (q st) \<longrightarrow>
        (\<forall>d. \<not> wall m p d \<longrightarrow> move p d \<in> discovered m (dist_tab st)))"

definition bfs_mid :: "maze \<Rightarrow> pos \<Rightarrow> pos \<Rightarrow> dir list \<Rightarrow> bfs_state \<Rightarrow> bool" where
  "bfs_mid m s rc ds st \<longleftrightarrow>
     bfs_core m s st \<and> rc \<in> discovered m (dist_tab st) \<and>
     (\<forall>p \<in> discovered m (dist_tab st). p \<notin> set (q st) \<longrightarrow> p \<noteq> rc \<longrightarrow>
        (\<forall>d. \<not> wall m p d \<longrightarrow> move p d \<in> discovered m (dist_tab st))) \<and>
     (\<forall>d. d \<notin> set ds \<longrightarrow> \<not> wall m rc d \<longrightarrow> move rc d \<in> discovered m (dist_tab st))"

definition bfs_measure :: "maze \<Rightarrow> bfs_state \<Rightarrow> nat" where
  "bfs_measure m st = 2 * card (cells m - discovered m (dist_tab st)) + length (q st)"

definition bfs_ok :: "maze \<Rightarrow> pos \<Rightarrow> error + bfs_state \<Rightarrow> bool" where
  "bfs_ok m s x = (case x of Inl e \<Rightarrow> False | Inr st \<Rightarrow> bfs_inv m s st)"

definition bfs_size :: "maze \<Rightarrow> error + bfs_state \<Rightarrow> nat" where
  "bfs_size m x = (case x of Inl e \<Rightarrow> 0 | Inr st \<Rightarrow> bfs_measure m st)"

inductive bfs_reach :: "maze \<Rightarrow> bfs_state \<Rightarrow> bfs_state \<Rightarrow> bool" for m st0 where
  bfs_reach_start: "bfs_reach m st0 st0"
| bfs_reach_step: "bfs_reach m st0 st \<Longrightarrow> q st \<noteq> [] \<Longrightarrow> bfs_step m st = Inr st' \<Longrightarrow>
     bfs_reach m st0 st'"

text \<open>What \<open>bfs_visit\<close> returns where nothing is out of range.\<close>

definition visit_result :: "maze \<Rightarrow> pos \<Rightarrow> dir \<Rightarrow> bfs_state \<Rightarrow> bfs_state" where
  "visit_result m rc d st =
     (if wall m rc d then st
      else if nth2 (dist_tab st) (move rc d) = -1 then discover rc d st else st)"

text \<open>A simple path: a non-empty list of distinct vertices, each joined to the next.\<close>

definition spath :: "('a \<Rightarrow> 'a \<Rightarrow> bool) \<Rightarrow> 'a list \<Rightarrow> bool" where
  "spath adj p \<longleftrightarrow>
     p \<noteq> [] \<and> distinct p \<and> (\<forall>i. Suc i < length p \<longrightarrow> adj (p ! i) (p ! Suc i))"

text \<open>A carving state with another cell size in its maze.\<close>

definition with_cell_size :: "int \<Rightarrow> carve_state \<Rightarrow> carve_state" where
  "with_cell_size c st = st\<lparr>self := (self st)\<lparr>cell_size := c\<rparr>\<rparr>"

section \<open>Rounding to a double\<close>

text \<open>The recursion of \<open>bit_length\<close> is unfolded by hand.\<close>

declare bit_length.simps [simp del]

lemma bit_length_bounds: "0 < n \<Longrightarrow> 2 ^ (bit_length n - 1) \<le> n \<and> n < 2 ^ bit_length n"
proof (induction n rule: bit_length.induct)
  case (1 n)
  show ?case
  proof (cases "n div 2 = 0")
    case True
    with 1(2) have "n = 1" by (simp add: div_eq_0_iff) 
    then show ?thesis by (simp add: bit_length.simps)
  next
    case False
    with 1 have ih: "2 ^ (bit_length (n div 2) - 1) \<le> n div 2" "n div 2 < 2 ^ bit_length (n div 2)"
      by simp_all
    from False have b: "0 < bit_length (n div 2)" by (simp add: bit_length.simps)
    from 1(2) have bl: "bit_length n = Suc (bit_length (n div 2))" by (simp add: bit_length.simps)
    from b obtain k where k: "bit_length (n div 2) = Suc k" by (cases "bit_length (n div 2)") simp_all
    with ih have "2 ^ k \<le> n div 2" "n div 2 < 2 ^ Suc k" by simp_all
    then have "2 * 2 ^ k \<le> n" "n < 2 * 2 ^ Suc k" by arith+
    with bl k show ?thesis by simp
  qed
qed

lemma binade_bounds:
  assumes "0 < x"
  shows "2 powi binade x \<le> x \<and> x < 2 powi (binade x + 1)"
proof (cases "1 \<le> x")
  case True
  define n where "n = nat \<lfloor>x\<rfloor>"
  from True have n: "0 < n" "of_nat n \<le> x" "x < of_nat n + 1"
    by (simp_all add: n_def) linarith+
  from bit_length_bounds [OF n(1)] have b: "2 ^ (bit_length n - 1) \<le> n" "Suc n \<le> 2 ^ bit_length n"
    by simp_all
  from n(1) have p: "0 < bit_length n" by (simp add: bit_length.simps)
  from b(1) have "(2::rat) ^ (bit_length n - 1) \<le> of_nat n" by simp
  with n(2) have l: "(2::rat) ^ (bit_length n - 1) \<le> x" by linarith
  from b(2) have "(of_nat (Suc n) :: rat) \<le> 2 ^ bit_length n"
    unfolding of_nat_le_numeral_power_cancel_iff .
  with n(3) have u: "x < (2::rat) ^ bit_length n" by simp
  from True p have e: "binade x = int (bit_length n - 1)" "binade x + 1 = int (bit_length n)"
    by (simp_all add: binade_def n_def)
  have "(2::rat) powi binade x = 2 ^ (bit_length n - 1)"
    unfolding e(1) by (rule power_int_of_nat)
  moreover have "(2::rat) powi (binade x + 1) = 2 ^ bit_length n"
    unfolding e(2) by (rule power_int_of_nat)
  ultimately show ?thesis using l u by simp
next
  case False
  define y where "y = nat \<lceil>1 / x\<rceil>"
  define k where "k = bit_length (y - 1)"
  from False assms have inv: "1 < 1 / x" by simp
  then have y2: "2 \<le> y" unfolding y_def by linarith
  have yu: "1 / x \<le> of_nat y" unfolding y_def by linarith
  have yl: "of_nat (y - 1) < 1 / x" using y2 unfolding y_def by linarith
  from y2 have "0 < y - 1" by simp
  from bit_length_bounds [OF this] have b: "2 ^ (k - 1) \<le> y - 1" "y \<le> 2 ^ k"
    unfolding k_def by simp_all arith
  from y2 have kp: "0 < k" unfolding k_def by (simp add: bit_length.simps)
  from b(2) have "(of_nat y :: rat) \<le> 2 ^ k"
    unfolding of_nat_le_numeral_power_cancel_iff .
  with yu have "1 / x \<le> (2::rat) ^ k" by linarith
  with assms have l: "1 / 2 ^ k \<le> x" by (simp add: field_simps)
  from b(1) have "(2::rat) ^ (k - 1) \<le> of_nat (y - 1)"
    unfolding numeral_power_le_of_nat_cancel_iff .
  with yl have "(2::rat) ^ (k - 1) < 1 / x" by linarith
  with assms have u: "x < 1 / 2 ^ (k - 1)" by (simp add: field_simps)
  from False have e: "binade x = - int k" by (simp add: binade_def k_def y_def)
  from kp have e1: "binade x + 1 = - int (k - 1)" unfolding e by simp
  show ?thesis unfolding e1 unfolding e power_int_minus power_int_of_nat
    using l u by (simp add: field_simps)
qed

lemma round_half_even_near: "\<bar>of_int (round_half_even x) - x\<bar> \<le> 1 / 2"
proof -
  have "of_int \<lfloor>x\<rfloor> \<le> x" "x < of_int \<lfloor>x\<rfloor> + 1" by linarith+
  then show ?thesis unfolding round_half_even_def Let_def by (auto simp: abs_le_iff)
qed

lemma float_round_near:
  assumes "x \<noteq> 0"
  shows "\<bar>float_round x - x\<bar> \<le> 2 powi (max (binade \<bar>x\<bar>) (- 1022) - 53)"
proof -
  define e where "e = max (binade \<bar>x\<bar>) (- 1022)"
  define ulp :: rat where "ulp = 2 powi (e - 52)"
  have up: "0 < ulp" by (simp add: ulp_def)
  have fr: "float_round x = of_int (round_half_even (x / ulp)) * ulp"
    using assms by (simp add: float_round_def e_def ulp_def Let_def)
  have "float_round x - x = (of_int (round_half_even (x / ulp)) - x / ulp) * ulp"
    using up unfolding fr by (simp add: field_simps)
  then have "\<bar>float_round x - x\<bar> = \<bar>of_int (round_half_even (x / ulp)) - x / ulp\<bar> * ulp"
    using up by (simp add: abs_mult)
  also have "\<dots> \<le> 1 / 2 * ulp"
    using round_half_even_near [of "x / ulp"] up by (intro mult_right_mono) simp_all
  also have "1 / 2 * ulp = 2 powi (e - 53)"
    unfolding ulp_def by (simp add: power_int_diff)
  finally show ?thesis by (simp add: e_def)
qed

text \<open>With three neighbours and complexity \<open>0.6666666666666666\<close>, the double
  \<open>6004799503160661 / 2\<^sup>5\<^sup>3\<close>, the exact product is below 2 and the float product
  is 2.\<close>

lemma float_round_examples:
  "float_round (3 * (6004799503160661 / 2 ^ 53)) = 2"
  "py_int (3 * (6004799503160661 / 2 ^ 53)) = 1"
  "float_round (1 / 10) = 3602879701896397 / 2 ^ 55"
  by code_simp+

lemma float_round_small:
  "float_round 0 = 0" "float_round (1 / 2) = 1 / 2" "float_round 1 = 1"
  "float_round 2 = 2" "float_round 3 = 3" "float_round 4 = 4"
  by code_simp+

section \<open>Facts about graphs\<close>

subsection \<open>Distances in any graph\<close>

lemma gdist_le: "(adj ^^ n) u v \<Longrightarrow> gdist adj u v \<le> n"
  unfolding gdist_def by (rule Least_le)

lemma gdist_walk: "adj\<^sup>*\<^sup>* u v \<Longrightarrow> (adj ^^ gdist adj u v) u v"
  unfolding gdist_def by (rule LeastI_ex) (simp add: rtranclp_power)

lemma gdist_refl [simp]: "gdist adj u u = 0"
  using gdist_le [where n = 0 and adj = adj and u = u and v = u] by simp

lemma gdist_zero: "adj\<^sup>*\<^sup>* u v \<Longrightarrow> gdist adj u v = 0 \<Longrightarrow> u = v"
  using gdist_walk [of adj u v] by simp

lemma gdist_triangle:
  assumes "adj\<^sup>*\<^sup>* u v" and "adj\<^sup>*\<^sup>* v w"
  shows "gdist adj u w \<le> gdist adj u v + gdist adj v w"
proof -
  from assms have "(adj ^^ gdist adj u v) u v" and "(adj ^^ gdist adj v w) v w"
    by (simp_all add: gdist_walk)
  then have "(adj ^^ (gdist adj u v + gdist adj v w)) u w"
    by (auto simp: relpowp_add)
  then show ?thesis by (rule gdist_le)
qed

lemma relpowp_sym:
  assumes sym: "\<And>x y. adj x y \<Longrightarrow> adj y x"
  shows "(adj ^^ n) u v \<Longrightarrow> (adj ^^ n) v u"
proof (induction n arbitrary: v)
  case 0
  then show ?case by simp
next
  case (Suc n)
  then obtain y where "(adj ^^ n) u y" and "adj y v" by auto
  then have "adj v y" and "(adj ^^ n) y u" using Suc.IH sym by auto
  then show ?case by (rule relpowp_Suc_I2)
qed

lemma gdist_sym:
  assumes sym: "\<And>x y. adj x y \<Longrightarrow> adj y x"
  shows "gdist adj u v = gdist adj v u"
proof -
  have "(adj ^^ n) u v \<longleftrightarrow> (adj ^^ n) v u" for n
    using relpowp_sym [of adj n, OF sym] by blast
  then show ?thesis by (simp add: gdist_def)
qed

lemma gdist_adj: "adj u v \<Longrightarrow> u \<noteq> v \<Longrightarrow> gdist adj u v = 1"
proof -
  assume a: "adj u v" and ne: "u \<noteq> v"
  then have "(adj ^^ 1) u v" by auto
  then have "gdist adj u v \<le> 1" by (rule gdist_le)
  moreover have "gdist adj u v \<noteq> 0"
    using gdist_zero [of adj u v] a ne by auto
  ultimately show ?thesis by simp
qed

subsection \<open>Trees grown leaf by leaf\<close>

lemma ltree_dom: "ltree V adj \<Longrightarrow> adj x y \<Longrightarrow> x \<in> V \<and> y \<in> V"
  by (induction arbitrary: x y rule: ltree.induct) auto

lemma ltree_sym: "ltree V adj \<Longrightarrow> adj x y \<Longrightarrow> adj y x"
  by (induction arbitrary: x y rule: ltree.induct) auto

lemma ltree_irrefl: "ltree V adj \<Longrightarrow> \<not> adj x x"
  by (induction arbitrary: x rule: ltree.induct) (auto dest: ltree_dom)

lemma ltree_finite: "ltree V adj \<Longrightarrow> finite V \<and> V \<noteq> {}"
  by (induction rule: ltree.induct) auto

lemma ltree_connected: "ltree V adj \<Longrightarrow> x \<in> V \<Longrightarrow> y \<in> V \<Longrightarrow> adj\<^sup>*\<^sup>* x y"
proof (induction arbitrary: x y rule: ltree.induct)
  case (ltree_single adj r)
  then show ?case by simp
next
  case (ltree_leaf V adj u v adj')
  have mono: "adj\<^sup>*\<^sup>* a b \<Longrightarrow> adj'\<^sup>*\<^sup>* a b" for a b
    using ltree_leaf.hyps(4) by (elim rtranclp_mono [THEN predicate2D, rotated]) auto
  have uv: "adj' u v" and vu: "adj' v u" using ltree_leaf.hyps(4) by auto
  have old: "a \<in> V \<Longrightarrow> b \<in> V \<Longrightarrow> adj'\<^sup>*\<^sup>* a b" for a b
    using ltree_leaf.IH mono by blast
  have to_v: "adj'\<^sup>*\<^sup>* a v" if "a \<in> V" for a
    using old [OF that ltree_leaf.hyps(2)] uv by (rule rtranclp.rtrancl_into_rtrancl)
  have from_v: "adj'\<^sup>*\<^sup>* v b" if "b \<in> V" for b
    using vu old [OF ltree_leaf.hyps(2) that] by (rule converse_rtranclp_into_rtranclp)
  from ltree_leaf.prems show ?case
    using old to_v from_v by auto
qed

lemma ltree_edge_pairs: "ltree V adj \<Longrightarrow> finite (edge_pairs adj) \<and> card (edge_pairs adj) = card V - 1"
proof (induction rule: ltree.induct)
  case (ltree_single adj r)
  then have "edge_pairs adj = {}" by (auto simp: edge_pairs_def)
  then show ?case by simp
next
  case (ltree_leaf V adj u v adj')
  have eq: "edge_pairs adj' = insert {u, v} (edge_pairs adj)"
    using ltree_leaf.hyps(4) by (auto simp: edge_pairs_def insert_commute)
  have new: "{u, v} \<notin> edge_pairs adj"
  proof
    assume "{u, v} \<in> edge_pairs adj"
    then obtain x y where "{u, v} = {x, y}" and "adj x y" by (auto simp: edge_pairs_def)
    then have "v \<in> V" using ltree_dom [OF ltree_leaf.hyps(1), of x y] by (auto simp: doubleton_eq_iff)
    with ltree_leaf.hyps(3) show False by simp
  qed
  from ltree_finite [OF ltree_leaf.hyps(1)] have "finite V" "0 < card V"
    by (auto simp: card_gt_0_iff)
  with ltree_leaf.IH ltree_leaf.hyps(3) eq new show ?case by simp
qed

lemma ltree_acyclic: "ltree V adj \<Longrightarrow> \<not> cycle adj p"
proof (induction arbitrary: p rule: ltree.induct)
  case (ltree_single adj r)
  show ?case
  proof
    assume "cycle adj p"
    then have "0 < length p" and "\<forall>i<length p. adj (p ! i) (p ! (Suc i mod length p))"
      by (auto simp: cycle_def)
    then have "adj (p ! 0) (p ! (Suc 0 mod length p))" by blast
    with ltree_single show False by simp
  qed
next
  case (ltree_leaf V adj u v adj')
  note adj' = ltree_leaf.hyps(4)
  have nbr: "a = u" if "adj' v a \<or> adj' a v" for a
    using that adj' ltree_dom [OF ltree_leaf.hyps(1)] ltree_leaf.hyps(3) by blast
  show ?case
  proof
    assume c: "cycle adj' p"
    define n where "n = length p"
    from c have n3: "3 \<le> n" and dist: "distinct p"
      and edges: "\<And>i. i < n \<Longrightarrow> adj' (p ! i) (p ! (Suc i mod n))"
      by (auto simp: cycle_def n_def)
    show False
    proof (cases "v \<in> set p")
      case True
      then obtain i where i: "i < n" and pi: "p ! i = v"
        by (auto simp: in_set_conv_nth n_def)
      define j where "j = (if i = 0 then n - 1 else i - 1)"
      have j: "j < n" and ji: "Suc j mod n = i" using i n3 by (auto simp: j_def)
      define k where "k = Suc i mod n"
      have k: "k < n" using n3 by (simp add: k_def)
      from edges [OF i] pi have "p ! k = u" by (auto simp: k_def intro: nbr)
      moreover from edges [OF j] ji pi have "p ! j = u" by (auto intro: nbr)
      ultimately have "p ! j = p ! k" by simp
      with dist j k have "j = k" by (simp add: nth_eq_iff_index_eq n_def)
      with i n3 show False by (auto simp: j_def k_def mod_Suc split: if_splits)
    next
      case False
      have "adj (p ! i) (p ! (Suc i mod n))" if "i < n" for i
      proof -
        have "Suc i mod n < n" using n3 by simp
        then have "p ! i \<in> set p" and "p ! (Suc i mod n) \<in> set p"
          using that by (simp_all add: n_def)
        with False have "p ! i \<noteq> v" and "p ! (Suc i mod n) \<noteq> v" by auto
        with edges [OF that] adj' show ?thesis by auto
      qed
      with n3 dist have "cycle adj p" by (auto simp: cycle_def n_def)
      with ltree_leaf.IH show False by simp
    qed
  qed
qed

subsection \<open>Distances when a leaf is attached\<close>

lemma leaf_walk_shorten:
  assumes dom: "\<And>x y. adj x y \<Longrightarrow> x \<in> V \<and> y \<in> V"
    and v: "v \<notin> V"
    and adj': "\<forall>x y. adj' x y \<longleftrightarrow> adj x y \<or> (x = u \<and> y = v) \<or> (x = v \<and> y = u)"
  shows "(adj' ^^ n) x y \<Longrightarrow> x \<in> V \<Longrightarrow> y \<in> V \<Longrightarrow> \<exists>k\<le>n. (adj ^^ k) x y"
proof (induction n arbitrary: x rule: less_induct)
  case (less n)
  show ?case
  proof (cases n)
    case 0
    with less.prems show ?thesis by auto
  next
    case (Suc n1)
    with less.prems have "(adj' ^^ Suc n1) x y" by simp
    then obtain z where xz: "adj' x z" and zy: "(adj' ^^ n1) z y"
      by (rule relpowp_Suc_E2)
    show ?thesis
    proof (cases "z = v")
      case False
      with xz adj' less.prems(2) v have a: "adj x z" by auto
      then have "z \<in> V" using dom by blast
      with less.IH [of n1 z] zy less.prems(3) Suc obtain k where "k \<le> n1" "(adj ^^ k) z y"
        by auto
      from a this(2) have "(adj ^^ Suc k) x y" by (rule relpowp_Suc_I2)
      with \<open>k \<le> n1\<close> Suc show ?thesis by (intro exI [of _ "Suc k"]) simp
    next
      case True
      with xz adj' less.prems(2) v dom have xu: "x = u" by blast
      from True less.prems(3) v have "z \<noteq> y" by auto
      with zy obtain n2 where n2: "n1 = Suc n2" by (cases n1) auto
      with zy True have "(adj' ^^ Suc n2) v y" by simp
      then obtain w where vw: "adj' v w" and wy: "(adj' ^^ n2) w y"
        by (rule relpowp_Suc_E2)
      from vw adj' v dom have "w = u" by blast
      with wy xu have "(adj' ^^ n2) x y" by simp
      with less.IH [of n2 x] less.prems(2,3) Suc n2 obtain k where "k \<le> n2" "(adj ^^ k) x y"
        by auto
      with Suc n2 show ?thesis by (intro exI [of _ k]) simp
    qed
  qed
qed

lemma leaf_gdist_old:
  assumes dom: "\<And>x y. adj x y \<Longrightarrow> x \<in> V \<and> y \<in> V"
    and v: "v \<notin> V"
    and adj': "\<forall>x y. adj' x y \<longleftrightarrow> adj x y \<or> (x = u \<and> y = v) \<or> (x = v \<and> y = u)"
    and x: "x \<in> V" and y: "y \<in> V" and conn: "adj\<^sup>*\<^sup>* x y"
  shows "gdist adj' x y = gdist adj x y"
proof (rule antisym)
  from conn have "(adj ^^ gdist adj x y) x y" by (rule gdist_walk)
  moreover have "adj a b \<Longrightarrow> adj' a b" for a b using adj' by simp
  ultimately have w: "(adj' ^^ gdist adj x y) x y"
    by (elim relpowp_mono [rotated])
  then show "gdist adj' x y \<le> gdist adj x y" by (rule gdist_le)
  from w have "adj'\<^sup>*\<^sup>* x y" by (rule relpowp_imp_rtranclp)
  then have "(adj' ^^ gdist adj' x y) x y" by (rule gdist_walk)
  from leaf_walk_shorten [OF dom v adj' this x y]
  obtain k where "k \<le> gdist adj' x y" and "(adj ^^ k) x y" by blast
  then show "gdist adj x y \<le> gdist adj' x y" using gdist_le [of k adj x y] by simp
qed

lemma leaf_gdist_new:
  assumes dom: "\<And>x y. adj x y \<Longrightarrow> x \<in> V \<and> y \<in> V"
    and v: "v \<notin> V" and u: "u \<in> V"
    and adj': "\<forall>x y. adj' x y \<longleftrightarrow> adj x y \<or> (x = u \<and> y = v) \<or> (x = v \<and> y = u)"
    and x: "x \<in> V" and conn: "adj\<^sup>*\<^sup>* u x"
  shows "gdist adj' v x = Suc (gdist adj u x)"
proof (rule antisym)
  from conn have "(adj ^^ gdist adj u x) u x" by (rule gdist_walk)
  moreover have "adj a b \<Longrightarrow> adj' a b" for a b using adj' by simp
  ultimately have w: "(adj' ^^ gdist adj u x) u x"
    by (elim relpowp_mono [rotated])
  moreover have vu: "adj' v u" using adj' by simp
  ultimately have w': "(adj' ^^ Suc (gdist adj u x)) v x" by (rule relpowp_Suc_I2 [rotated])
  then show "gdist adj' v x \<le> Suc (gdist adj u x)" by (rule gdist_le)
  from w' have "adj'\<^sup>*\<^sup>* v x" by (rule relpowp_imp_rtranclp)
  then have g: "(adj' ^^ gdist adj' v x) v x" by (rule gdist_walk)
  from x v have "v \<noteq> x" by auto
  with g obtain n where n: "gdist adj' v x = Suc n" by (cases "gdist adj' v x") auto
  with g have "(adj' ^^ Suc n) v x" by simp
  then obtain w where vw: "adj' v w" and wx: "(adj' ^^ n) w x"
    by (rule relpowp_Suc_E2)
  from vw adj' v dom have "w = u" by blast
  with wx have "(adj' ^^ n) u x" by simp
  from leaf_walk_shorten [OF dom v adj' this u x]
  obtain k where "k \<le> n" and "(adj ^^ k) u x" by blast
  then have "gdist adj u x \<le> n" using gdist_le [of k adj u x] by simp
  with n show "Suc (gdist adj u x) \<le> gdist adj' v x" by simp
qed

text \<open>The distances of the grown tree, written over the old one.\<close>

lemma ltree_leaf_gdist:
  assumes t: "ltree V adj" and u: "u \<in> V" and v: "v \<notin> V"
    and adj': "\<forall>x y. adj' x y \<longleftrightarrow> adj x y \<or> (x = u \<and> y = v) \<or> (x = v \<and> y = u)"
  shows "x \<in> V \<Longrightarrow> y \<in> V \<Longrightarrow> gdist adj' x y = gdist adj x y"
    and "x \<in> V \<Longrightarrow> gdist adj' v x = Suc (gdist adj u x)"
    and "x \<in> V \<Longrightarrow> gdist adj' x v = Suc (gdist adj x u)"
proof -
  have dom: "\<And>x y. adj x y \<Longrightarrow> x \<in> V \<and> y \<in> V" using ltree_dom [OF t] by blast
  have t': "ltree (insert v V) adj'" using t u v adj' by (rule ltree.ltree_leaf)
  show "x \<in> V \<Longrightarrow> y \<in> V \<Longrightarrow> gdist adj' x y = gdist adj x y"
    using leaf_gdist_old [OF dom v adj'] ltree_connected [OF t] by blast
  show new: "gdist adj' v x = Suc (gdist adj u x)" if "x \<in> V" for x
    using leaf_gdist_new [OF dom v u adj' that] ltree_connected [OF t u that] by blast
  show "x \<in> V \<Longrightarrow> gdist adj' x v = Suc (gdist adj x u)"
    using new [of x] gdist_sym [of adj' x v, OF ltree_sym [OF t']]
      gdist_sym [of adj x u, OF ltree_sym [OF t]] by simp
qed

subsection \<open>The four-point condition and its consequences\<close>

lemma ltree_triangle:
  "ltree V adj \<Longrightarrow> x \<in> V \<Longrightarrow> y \<in> V \<Longrightarrow> z \<in> V \<Longrightarrow>
     gdist adj x z \<le> gdist adj x y + gdist adj y z"
  by (blast intro: gdist_triangle ltree_connected)

lemma ltree_gdist_sym: "ltree V adj \<Longrightarrow> gdist adj x y = gdist adj y x"
  by (rule gdist_sym) (rule ltree_sym)

lemma ltree_four_point: "ltree V adj \<Longrightarrow> four_point (gdist adj) V"
proof (induction rule: ltree.induct)
  case (ltree_single adj r)
  then show ?case by (simp add: four_point_def)
next
  case (ltree_leaf V adj u v adj')
  have t': "ltree (insert v V) adj'"
    using ltree_leaf.hyps by (rule ltree.ltree_leaf)
  note d = ltree_leaf_gdist [OF ltree_leaf.hyps]
  note sym = ltree_gdist_sym [OF t']
  note tri = ltree_triangle [OF t']
  note IH = ltree_leaf.IH [unfolded four_point_def, rule_format]
  note u = ltree_leaf.hyps(2)
  show ?case unfolding four_point_def
  proof (intro ballI)
    fix x y z w
    assume x: "x \<in> insert v V" and y: "y \<in> insert v V"
      and z: "z \<in> insert v V" and w: "w \<in> insert v V"
    let ?d = "gdist adj'"
    show "?d x y + ?d z w \<le> max (?d x z + ?d y w) (?d x w + ?d y z)"
    proof -
      consider "x = z \<or> y = w" | "x = w \<or> y = z" | "x = y" | "z = w"
        | "x \<noteq> z" "y \<noteq> w" "x \<noteq> w" "y \<noteq> z" "x \<noteq> y" "z \<noteq> w"
        by blast
      then show ?thesis
      proof cases
        case 1
        then show ?thesis using sym [of x y] sym [of z w] sym [of y z] sym [of x w] by auto
      next
        case 2
        then show ?thesis using sym [of x y] sym [of z w] sym [of y w] sym [of x z] by auto
      next
        case 3
        then show ?thesis using tri [OF z x w] sym [of z x] by simp
      next
        case 4
        then show ?thesis using tri [OF x z y] sym [of z y] by simp
      next
        case 5
        show ?thesis
        proof (cases "x = v")
          case True
          with 5 x y z w have "y \<in> V" "z \<in> V" "w \<in> V" by auto
          with IH [of u y z w] u True show ?thesis by (simp add: d)
        next
          case xv: False
          show ?thesis
          proof (cases "y = v")
            case True
            with 5 x y z w have "x \<in> V" "z \<in> V" "w \<in> V" by auto
            with IH [of x u z w] u True show ?thesis by (simp add: d)
          next
            case yv: False
            show ?thesis
            proof (cases "z = v")
              case True
              with 5 x y z w have "x \<in> V" "y \<in> V" "w \<in> V" by auto
              with IH [of x y u w] u True show ?thesis by (simp add: d)
            next
              case zv: False
              show ?thesis
              proof (cases "w = v")
                case True
                with 5 x y z w have "x \<in> V" "y \<in> V" "z \<in> V" by auto
                with IH [of x y z u] u True show ?thesis by (simp add: d)
              next
                case False
                with xv yv zv x y z w have "x \<in> V" "y \<in> V" "z \<in> V" "w \<in> V" by auto
                with IH [of x y z w] show ?thesis by (simp add: d)
              qed
            qed
          qed
        qed
      qed
    qed
  qed
qed

lemma ltree_adj_step:
  "ltree V adj \<Longrightarrow> s \<in> V \<Longrightarrow> adj x y \<Longrightarrow>
     gdist adj s y = Suc (gdist adj s x) \<or> gdist adj s x = Suc (gdist adj s y)"
proof (induction arbitrary: s x y rule: ltree.induct)
  case (ltree_single adj r)
  then show ?case by simp
next
  case (ltree_leaf V adj u v adj')
  note d = ltree_leaf_gdist [OF ltree_leaf.hyps]
  note u = ltree_leaf.hyps(2)
  note dom = ltree_dom [OF ltree_leaf.hyps(1)]
  from ltree_leaf.prems(2) ltree_leaf.hyps(4)
  consider "adj x y" | "x = u" "y = v" | "x = v" "y = u" by blast
  then show ?case
  proof cases
    case 1
    then have xy: "x \<in> V" "y \<in> V" using dom by blast+
    show ?thesis
    proof (cases "s = v")
      case True
      with ltree_leaf.IH [OF u 1] xy show ?thesis by (simp add: d)
    next
      case False
      with ltree_leaf.prems(1) have "s \<in> V" by simp
      with ltree_leaf.IH [OF this 1] xy show ?thesis by (simp add: d)
    qed
  next
    case 2
    then show ?thesis using ltree_leaf.prems(1) u by (cases "s = v") (auto simp: d)
  next
    case 3
    then show ?thesis using ltree_leaf.prems(1) u by (cases "s = v") (auto simp: d)
  qed
qed

text \<open>A vertex has one neighbour only that is nearer to \<open>s\<close>.\<close>

lemma ltree_unique_parent:
  assumes t: "ltree V adj" and s: "s \<in> V"
    and a: "adj p a" "gdist adj s p = Suc (gdist adj s a)"
    and b: "adj p b" "gdist adj s p = Suc (gdist adj s b)"
  shows "a = b"
proof -
  from a b ltree_dom [OF t] have V: "p \<in> V" "a \<in> V" "b \<in> V" by blast+
  from a b ltree_irrefl [OF t] have "p \<noteq> a" "p \<noteq> b" by auto
  with a b have "gdist adj p a = 1" "gdist adj p b = 1" by (simp_all add: gdist_adj)
  with ltree_four_point [OF t, unfolded four_point_def, rule_format, OF s V(1) V(2) V(3)] a b
  have "gdist adj a b = 0" by simp
  with ltree_connected [OF t V(2) V(3)] show ?thesis by (rule gdist_zero)
qed

lemma ltree_double_sweep:
  assumes t: "ltree V adj" and s: "s \<in> V" and A: "A \<in> V" and B: "B \<in> V"
    and farA: "\<forall>x\<in>V. gdist adj s x \<le> gdist adj s A"
    and farB: "\<forall>x\<in>V. gdist adj A x \<le> gdist adj A B"
    and X: "X \<in> V" and Y: "Y \<in> V"
  shows "gdist adj X Y \<le> gdist adj A B"
proof -
  note sym = ltree_gdist_sym [OF t]
  from ltree_four_point [OF t, unfolded four_point_def, rule_format, OF X Y s A]
  have "gdist adj X Y + gdist adj s A
          \<le> max (gdist adj s X + gdist adj A Y) (gdist adj A X + gdist adj s Y)"
    by (simp add: sym [of X s] sym [of Y A] sym [of X A] sym [of Y s])
  moreover from farA X Y have "gdist adj s X \<le> gdist adj s A" "gdist adj s Y \<le> gdist adj s A"
    by auto
  moreover from farB X Y have "gdist adj A X \<le> gdist adj A B" "gdist adj A Y \<le> gdist adj A B"
    by auto
  ultimately show ?thesis by linarith
qed

section \<open>The carving loop\<close>

subsection \<open>Lists of lists\<close>

lemma shape_replicate: "shape rws cls (replicate (nat rws) (replicate (nat cls) v))"
  by (simp add: shape_def)

lemma shape_upd2: "shape rws cls a \<Longrightarrow> shape rws cls (upd2 a p v)"
proof (cases "nat (fst p) < length a")
  case True
  assume "shape rws cls a"
  with True show ?thesis
    by (auto simp: shape_def upd2_def dest!: set_update_subset_insert [THEN subsetD])
next
  case False
  assume "shape rws cls a"
  with False show ?thesis by (simp add: upd2_def list_update_beyond not_less)
qed

lemma get2_nth2:
  "shape (rows m) (cols m) a \<Longrightarrow> in_bounds m p \<Longrightarrow> get2 a p = Inr (nth2 a p)"
  by (simp add: shape_def in_bounds_def get2_def py_index_def nth2_def)

lemma set2_upd2:
  "shape (rows m) (cols m) a \<Longrightarrow> in_bounds m p \<Longrightarrow> set2 a p v = Inr (upd2 a p v)"
  by (simp add: shape_def in_bounds_def set2_def py_index_def upd2_def)

lemma nth2_upd2:
  "shape (rows m) (cols m) a \<Longrightarrow> in_bounds m p \<Longrightarrow> in_bounds m p' \<Longrightarrow>
     nth2 (upd2 a p v) p' = (if p' = p then v else nth2 a p')"
  by (cases p; cases p')
     (auto simp: shape_def in_bounds_def nth2_def upd2_def nth_list_update)

lemma nth2_replicate:
  "in_bounds m p \<Longrightarrow> nth2 (replicate (nat (rows m)) (replicate (nat (cols m)) v)) p = v"
  by (simp add: in_bounds_def nth2_def)

lemma wall_nth2: "wall m p d = nth2 (grid m) p d"
  by (simp add: wall_def nth2_def)

lemma dir_ex: "(\<exists>d. P d) \<longleftrightarrow> P N \<or> P S \<or> P E \<or> P W"
  by (metis dir.exhaust)

lemma dir_all: "(\<forall>d. P d) \<longleftrightarrow> P N \<and> P S \<and> P E \<and> P W"
  by (metis dir.exhaust)

lemma move_opposite: "move (move p d) (OPPOSITE d) = p"
  by (cases d) (simp_all add: move_def)

lemma move_neq: "move p d \<noteq> p"
  by (cases d; cases p) (simp_all add: move_def)

lemma move_inj: "move p d = move p d' \<Longrightarrow> d = d'"
  by (cases d; cases d'; cases p) (simp_all add: move_def)

lemma opposite_opposite [simp]: "OPPOSITE (OPPOSITE d) = d"
  by (cases d) simp_all

subsection \<open>What one round of the carving loop does\<close>

lemma fst_case_prod_const: "fst (case p of (a, b) \<Rightarrow> (x, b)) = x"
  by (cases p) simp

lemma snd_case_prod_const: "snd (case p of (a, b) \<Rightarrow> (x, b)) = snd p"
  by (cases p) simp

lemma choice_in_set: "xs \<noteq> [] \<Longrightarrow> fst (choice xs g) \<in> set xs"
  by (simp add: choice_def randbelow_def rng_next_def)

lemma unvisited_neighbours_fst:
  "fst (unvisited_neighbours m r c vis g) = concat (map (candidate m (r, c) vis) [N, S, E, W])"
  unfolding unvisited_neighbours_def Let_def fst_case_prod_const DIR_VEC_items_def
  by (simp add: candidate_def move_def in_bounds_def nth2_def)

lemma in_candidate:
  "x \<in> set (candidate m p vis d) \<longleftrightarrow>
     in_bounds m (move p d) \<and> \<not> nth2 vis (move p d) \<and>
     x = (fst (move p d), snd (move p d), d, OPPOSITE d)"
  by (auto simp: candidate_def)

lemma candidate_empty:
  "candidate m p vis d = [] \<longleftrightarrow> \<not> (in_bounds m (move p d) \<and> \<not> nth2 vis (move p d))"
  by (simp add: candidate_def)

lemma in_unvisited_neighbours:
  "x \<in> set (fst (unvisited_neighbours m r c vis g)) \<longleftrightarrow>
     (\<exists>d. in_bounds m (move (r, c) d) \<and> \<not> nth2 vis (move (r, c) d) \<and>
          x = (fst (move (r, c) d), snd (move (r, c) d), d, OPPOSITE d))"
  by (simp add: unvisited_neighbours_fst in_candidate dir_ex)

lemma unvisited_neighbours_empty:
  "fst (unvisited_neighbours m r c vis g) = [] \<longleftrightarrow>
     (\<forall>d. in_bounds m (move (r, c) d) \<longrightarrow> nth2 vis (move (r, c) d))"
  by (simp add: unvisited_neighbours_fst candidate_empty dir_all)

lemma in_bounds_same: "same_params m m' \<Longrightarrow> in_bounds m p = in_bounds m' p"
  by (simp add: same_params_def in_bounds_def)

lemma same_params_grid [simp]: "same_params (m\<lparr>grid := g\<rparr>) m' = same_params m m'"
  by (simp add: same_params_def)

lemma set_wall_open:
  "shape (rows m) (cols m) g \<Longrightarrow> in_bounds m p \<Longrightarrow>
     set_wall g p d False = Inr (upd2 g p ((nth2 g p)(d := False)))"
  by (simp add: set_wall_def get2_nth2 set2_upd2)

text \<open>The two ways a round can go, with the maze between the two wall assignments.\<close>

lemma carve_between_cases:
  assumes base: "carve_base m0 st" and ne: "stack st \<noteq> []"
  shows "(\<exists>d g'. in_bounds m0 (move (last (stack st)) d) \<and>
            \<not> nth2 (visited st) (move (last (stack st)) d) \<and>
            carve_step st = Inr (push_state st d g') \<and>
            carve_between st =
              Some (Inr ((self st)\<lparr>grid := upd2 (grid (self st)) (last (stack st))
                  ((nth2 (grid (self st)) (last (stack st)))(d := False))\<rparr>))) \<or>
         ((\<forall>d. in_bounds m0 (move (last (stack st)) d) \<longrightarrow>
               nth2 (visited st) (move (last (stack st)) d)) \<and>
          (\<exists>g'. carve_step st = Inr (st\<lparr>stack := butlast (stack st), rand := g'\<rparr>)) \<and>
          carve_between st = None)"
proof -
  obtain r c where p: "last (stack st) = (r, c)" by (cases "last (stack st)")
  obtain nbs g1 where
    un: "unvisited_neighbours (self st) r c (visited st) (rand st) = (nbs, g1)"
    by (cases "unvisited_neighbours (self st) r c (visited st) (rand st)")
  from base have sp: "same_params (self st) m0"
    and sg: "shape (rows m0) (cols m0) (grid (self st))"
    and sv: "shape (rows m0) (cols m0) (visited st)"
    by (simp_all add: carve_base_def)
  from base ne have pin: "in_bounds m0 (r, c)"
    using last_in_set [OF ne] by (auto simp: carve_base_def p)
  note inb = in_bounds_same [OF sp]
  show ?thesis
  proof (cases "nbs = []")
    case True
    with un have "carve_step st = Inr (st\<lparr>stack := butlast (stack st), rand := g1\<rparr>)"
      by (simp add: carve_step_def p)
    moreover from True un have "carve_between st = None"
      by (simp add: carve_between_def p)
    moreover from True un
    have "\<forall>d. in_bounds m0 (move (r, c) d) \<longrightarrow> nth2 (visited st) (move (r, c) d)"
      using unvisited_neighbours_empty [of "self st" r c "visited st" "rand st"]
      by (simp add: inb)
    ultimately show ?thesis by (auto simp: p)
  next
    case False
    obtain u g2 where rd: "random g1 = (u, g2)" by (cases "random g1")
    obtain x g3 where
      pick: "(if u < complexity (self st) then choice nbs g2 else (hd nbs, g2)) = (x, g3)"
      by (cases "if u < complexity (self st) then choice nbs g2 else (hd nbs, g2)")
    have "x \<in> set nbs"
      using pick False choice_in_set [of nbs g2] by (auto split: if_splits)
    with un obtain d where dn: "in_bounds m0 (move (r, c) d)"
      and dv: "\<not> nth2 (visited st) (move (r, c) d)"
      and x: "x = (fst (move (r, c) d), snd (move (r, c) d), d, OPPOSITE d)"
      using in_unvisited_neighbours [of x "self st" r c "visited st" "rand st"]
      by (auto simp: inb)
    let ?g1 = "upd2 (grid (self st)) (r, c) ((nth2 (grid (self st)) (r, c))(d := False))"
    have w1: "set_wall (grid (self st)) (r, c) d False = Inr ?g1"
      using sg pin by (rule set_wall_open)
    have "shape (rows m0) (cols m0) ?g1" using sg by (rule shape_upd2)
    then have w2: "set_wall ?g1 (move (r, c) d) (OPPOSITE d) False =
        Inr (upd2 ?g1 (move (r, c) d) ((nth2 ?g1 (move (r, c) d))(OPPOSITE d := False)))"
      using dn by (rule set_wall_open)
    have v: "set2 (visited st) (move (r, c) d) True = Inr (upd2 (visited st) (move (r, c) d) True)"
      using sv dn by (rule set2_upd2)
    have "carve_step st = Inr (push_state st d g3)"
      using un False rd pick w1 w2 v
      by (simp add: carve_step_def p x push_state_def open_wall_pair_def Let_def del: fun_upd_apply)
    moreover have "carve_between st = Some (Inr ((self st)\<lparr>grid := ?g1\<rparr>))"
      using un False rd pick w1
      by (simp add: carve_between_def p x Let_def del: fun_upd_apply)
    ultimately show ?thesis using dn dv unfolding p by blast
  qed
qed

lemma carve_step_cases:
  assumes base: "carve_base m0 st" and ne: "stack st \<noteq> []"
  shows "(\<exists>d g'. in_bounds m0 (move (last (stack st)) d) \<and>
            \<not> nth2 (visited st) (move (last (stack st)) d) \<and>
            carve_step st = Inr (push_state st d g')) \<or>
         ((\<forall>d. in_bounds m0 (move (last (stack st)) d) \<longrightarrow>
               nth2 (visited st) (move (last (stack st)) d)) \<and>
          (\<exists>g'. carve_step st = Inr (st\<lparr>stack := butlast (stack st), rand := g'\<rparr>)))"
  using carve_between_cases [OF assms] by blast

subsection \<open>The state after a push\<close>

lemma push_state_simps:
  "stack (push_state st d g) = stack st @ [move (last (stack st)) d]"
  "visited (push_state st d g) = upd2 (visited st) (move (last (stack st)) d) True"
  "grid (self (push_state st d g)) = open_wall_pair (grid (self st)) (last (stack st)) d"
  "same_params (self (push_state st d g)) m0 = same_params (self st) m0"
  by (simp_all add: push_state_def)

lemma wall_open_wall_pair:
  assumes sg: "shape (rows m) (cols m) (grid m)"
    and p: "in_bounds m p" and n: "in_bounds m (move p d)" and a: "in_bounds m a"
  shows "nth2 (open_wall_pair (grid m) p d) a e \<longleftrightarrow>
           wall m a e \<and> \<not> (a = p \<and> e = d) \<and> \<not> (a = move p d \<and> e = OPPOSITE d)"
proof -
  let ?g1 = "upd2 (grid m) p ((nth2 (grid m) p)(d := False))"
  have s1: "shape (rows m) (cols m) ?g1" using sg by (rule shape_upd2)
  have g1: "nth2 ?g1 a' = (if a' = p then (nth2 (grid m) p)(d := False) else nth2 (grid m) a')"
    if "in_bounds m a'" for a'
    using sg p that by (rule nth2_upd2)
  have "nth2 (open_wall_pair (grid m) p d) a =
          (if a = move p d then (nth2 ?g1 (move p d))(OPPOSITE d := False) else nth2 ?g1 a)"
    unfolding open_wall_pair_def Let_def using s1 n a by (rule nth2_upd2)
  then show ?thesis
    using move_neq [of p d] by (auto simp: g1 [OF a] g1 [OF n] wall_nth2)
qed

lemma wall_open_here:
  assumes sg: "shape (rows m) (cols m) (grid m)" and p: "in_bounds m p" and a: "in_bounds m a"
  shows "wall (m\<lparr>grid := upd2 (grid m) p ((nth2 (grid m) p)(d := False))\<rparr>) a e \<longleftrightarrow>
           wall m a e \<and> \<not> (a = p \<and> e = d)"
proof -
  have "nth2 (upd2 (grid m) p ((nth2 (grid m) p)(d := False))) a =
          (if a = p then (nth2 (grid m) p)(d := False) else nth2 (grid m) a)"
    using sg p a by (rule nth2_upd2)
  then show ?thesis by (auto simp: wall_nth2)
qed

lemma carve_base_push:
  assumes "carve_base m0 st" and "in_bounds m0 (move (last (stack st)) d)"
  shows "carve_base m0 (push_state st d g)"
  using assms
  by (simp add: carve_base_def push_state_simps open_wall_pair_def Let_def shape_upd2)

lemma carve_base_pop:
  "carve_base m0 st \<Longrightarrow> carve_base m0 (st\<lparr>stack := butlast (stack st), rand := g\<rparr>)"
  by (auto simp: carve_base_def dest: in_set_butlastD)

lemma wall_push:
  assumes base: "carve_base m0 st" and ne: "stack st \<noteq> []"
    and n: "in_bounds m0 (move (last (stack st)) d)" and a: "in_bounds m0 a"
  shows "wall (self (push_state st d g)) a e \<longleftrightarrow>
           wall (self st) a e \<and> \<not> (a = last (stack st) \<and> e = d) \<and>
           \<not> (a = move (last (stack st)) d \<and> e = OPPOSITE d)"
proof -
  from base have sp: "same_params (self st) m0"
    and sg: "shape (rows m0) (cols m0) (grid (self st))"
    by (simp_all add: carve_base_def)
  from sp have rc: "rows (self st) = rows m0" "cols (self st) = cols m0"
    by (simp_all add: same_params_def)
  note inb = in_bounds_same [OF sp]
  from base ne have p: "in_bounds m0 (last (stack st))"
    using last_in_set [OF ne] by (auto simp: carve_base_def)
  show ?thesis
    using wall_open_wall_pair [of "self st" "last (stack st)" d a e] sg p n a
    by (simp add: rc inb wall_nth2 [of "self (push_state st d g)"] push_state_simps)
qed

lemma in_bounds_push: "carve_base m0 st \<Longrightarrow> in_bounds (self (push_state st d g)) = in_bounds m0"
  by (auto simp: carve_base_def push_state_def in_bounds_def same_params_def fun_eq_iff)

lemma in_bounds_self: "carve_base m0 st \<Longrightarrow> in_bounds (self st) = in_bounds m0"
  by (auto simp: carve_base_def in_bounds_def same_params_def fun_eq_iff)

lemma visited_set_push:
  assumes base: "carve_base m0 st" and n: "in_bounds m0 (move (last (stack st)) d)"
  shows "visited_set m0 (visited (push_state st d g)) =
           insert (move (last (stack st)) d) (visited_set m0 (visited st))"
proof -
  from base have sv: "shape (rows m0) (cols m0) (visited st)" by (simp add: carve_base_def)
  show ?thesis
    using n by (auto simp: visited_set_def push_state_simps nth2_upd2 [OF sv n])
qed

lemma unvisited_set_push:
  assumes base: "carve_base m0 st" and n: "in_bounds m0 (move (last (stack st)) d)"
  shows "unvisited_set m0 (visited (push_state st d g)) =
           unvisited_set m0 (visited st) - {move (last (stack st)) d}"
proof -
  from base have sv: "shape (rows m0) (cols m0) (visited st)" by (simp add: carve_base_def)
  show ?thesis
    using n by (auto simp: unvisited_set_def push_state_simps nth2_upd2 [OF sv n] split: if_splits)
qed

lemma move_eq_iff: "move a e = b \<longleftrightarrow> a = move b (OPPOSITE e)"
  by (cases e; cases a; cases b) (auto simp: move_def)

lemma OPPOSITE_eq_iff: "OPPOSITE e = d \<longleftrightarrow> e = OPPOSITE d"
  by (cases e; cases d) simp_all

lemma wall_symmetric_push:
  assumes base: "carve_base m0 st" and ne: "stack st \<noteq> []"
    and n: "in_bounds m0 (move (last (stack st)) d)"
    and sym: "wall_symmetric (self st)"
  shows "wall_symmetric (self (push_state st d g))"
  unfolding wall_symmetric_def in_bounds_push [OF base]
proof (intro allI impI, elim conjE)
  fix a e
  assume a: "in_bounds m0 a" and b: "in_bounds m0 (move a e)"
  from sym a b have old: "wall (self st) a e = wall (self st) (move a e) (OPPOSITE e)"
    unfolding wall_symmetric_def in_bounds_self [OF base] by blast
  have 1: "a = last (stack st) \<and> e = d \<longleftrightarrow>
             move a e = move (last (stack st)) d \<and> OPPOSITE e = OPPOSITE d"
    by (auto simp: move_eq_iff [of a e] OPPOSITE_eq_iff [of e] move_opposite)
  have 2: "a = move (last (stack st)) d \<and> e = OPPOSITE d \<longleftrightarrow>
             move a e = last (stack st) \<and> OPPOSITE e = d"
    by (auto simp: move_eq_iff [of a e] OPPOSITE_eq_iff [of e])
  show "wall (self (push_state st d g)) a e =
          wall (self (push_state st d g)) (move a e) (OPPOSITE e)"
    unfolding wall_push [OF base ne n a] wall_push [OF base ne n b] old
    using 1 2 by blast
qed

lemma border_closed_push:
  assumes base: "carve_base m0 st" and ne: "stack st \<noteq> []"
    and n: "in_bounds m0 (move (last (stack st)) d)"
    and bc: "border_closed (self st)"
  shows "border_closed (self (push_state st d g))"
  unfolding border_closed_def in_bounds_push [OF base]
proof (intro allI impI, elim conjE)
  fix a e
  assume a: "in_bounds m0 a" and b: "\<not> in_bounds m0 (move a e)"
  from bc a b have old: "wall (self st) a e"
    unfolding border_closed_def in_bounds_self [OF base] by blast
  from base ne have p: "in_bounds m0 (last (stack st))"
    using last_in_set [OF ne] by (auto simp: carve_base_def)
  from b n have 1: "\<not> (a = last (stack st) \<and> e = d)" by auto
  from b p have 2: "\<not> (a = move (last (stack st)) d \<and> e = OPPOSITE d)"
    by (auto simp: move_opposite)
  show "wall (self (push_state st d g)) a e"
    unfolding wall_push [OF base ne n a] using old 1 2 by blast
qed

lemma open_adj_push:
  assumes base: "carve_base m0 st" and ne: "stack st \<noteq> []"
    and n: "in_bounds m0 (move (last (stack st)) d)"
  shows "open_adj (self (push_state st d g)) x y \<longleftrightarrow>
           open_adj (self st) x y \<or>
           (x = last (stack st) \<and> y = move (last (stack st)) d) \<or>
           (x = move (last (stack st)) d \<and> y = last (stack st))"
proof -
  from base ne have p: "in_bounds m0 (last (stack st))"
    using last_in_set [OF ne] by (auto simp: carve_base_def)
  show ?thesis
  proof (cases "in_bounds m0 x")
    case False
    with p n show ?thesis
      by (auto simp: open_adj_def in_bounds_push [OF base] in_bounds_self [OF base])
  next
    case True
    have "(\<exists>e. y = move x e \<and> \<not> wall (self (push_state st d g)) x e) \<longleftrightarrow>
          (\<exists>e. y = move x e \<and> \<not> wall (self st) x e) \<or>
           (x = last (stack st) \<and> y = move (last (stack st)) d) \<or>
           (x = move (last (stack st)) d \<and> y = last (stack st))"
      unfolding wall_push [OF base ne n True]
      by (auto simp: move_opposite) (metis move_opposite)
    with True p n show ?thesis
      by (auto simp: open_adj_def in_bounds_push [OF base] in_bounds_self [OF base])
  qed
qed

lemma cells_eq: "cells m = {0..<rows m} \<times> {0..<cols m}"
  by (auto simp: cells_def in_bounds_def)

lemma finite_cells: "finite (cells m)"
  by (simp add: cells_eq)

lemma card_cells: "card (cells m) = nat (rows m) * nat (cols m)"
  by (simp add: cells_eq)

lemma finite_unvisited: "finite (unvisited_set m vis)"
  by (rule finite_subset [OF _ finite_cells [of m]]) (auto simp: unvisited_set_def cells_def)

lemma carve_inv_push:
  assumes inv: "carve_inv m0 st" and ne: "stack st \<noteq> []"
    and n: "in_bounds m0 (move (last (stack st)) d)"
    and u: "\<not> nth2 (visited st) (move (last (stack st)) d)"
  shows "carve_inv m0 (push_state st d g)"
    and "carve_measure m0 (push_state st d g) < carve_measure m0 st"
proof -
  let ?p = "last (stack st)" and ?n = "move (last (stack st)) d"
  let ?V = "visited_set m0 (visited st)"
  from inv have base: "carve_base m0 st" and sym: "wall_symmetric (self st)"
    and bc: "border_closed (self st)" and t: "ltree ?V (open_adj (self st))"
    and sub: "set (stack st) \<subseteq> ?V"
    and fin: "\<forall>p \<in> ?V. p \<notin> set (stack st) \<longrightarrow>
        (\<forall>d. in_bounds m0 (move p d) \<longrightarrow> move p d \<in> ?V)"
    by (simp_all add: carve_inv_def)
  note vs = visited_set_push [OF base n, of g]
  from ne sub have pV: "?p \<in> ?V" using last_in_set [OF ne] by blast
  from u have nV: "?n \<notin> ?V" by (simp add: visited_set_def)
  have t': "ltree (visited_set m0 (visited (push_state st d g))) (open_adj (self (push_state st d g)))"
    unfolding vs using t pV nV
    by (rule ltree.ltree_leaf) (simp add: open_adj_push [OF base ne n])
  have sub': "set (stack (push_state st d g)) \<subseteq> visited_set m0 (visited (push_state st d g))"
    unfolding vs using sub by (auto simp: push_state_simps)
  have fin': "\<forall>p \<in> visited_set m0 (visited (push_state st d g)).
        p \<notin> set (stack (push_state st d g)) \<longrightarrow>
        (\<forall>d'. in_bounds m0 (move p d') \<longrightarrow>
           move p d' \<in> visited_set m0 (visited (push_state st d g)))"
    unfolding vs using fin by (auto simp: push_state_simps)
  show "carve_inv m0 (push_state st d g)"
    unfolding carve_inv_def
    using carve_base_push [OF base n] wall_symmetric_push [OF base ne n sym]
      border_closed_push [OF base ne n bc] t' sub' fin'
    by blast
  from n u have "?n \<in> unvisited_set m0 (visited st)" by (simp add: unvisited_set_def)
  then have "card (unvisited_set m0 (visited st) - {?n}) < card (unvisited_set m0 (visited st))"
    using finite_unvisited by (intro card_Diff1_less)
  then show "carve_measure m0 (push_state st d g) < carve_measure m0 st"
    unfolding carve_measure_def unvisited_set_push [OF base n]
    by (simp add: push_state_simps)
qed

lemma carve_inv_pop:
  assumes inv: "carve_inv m0 st" and ne: "stack st \<noteq> []"
    and nomore: "\<forall>d. in_bounds m0 (move (last (stack st)) d) \<longrightarrow>
                 nth2 (visited st) (move (last (stack st)) d)"
  shows "carve_inv m0 (st\<lparr>stack := butlast (stack st), rand := g\<rparr>)"
    and "carve_measure m0 (st\<lparr>stack := butlast (stack st), rand := g\<rparr>) < carve_measure m0 st"
proof -
  let ?V = "visited_set m0 (visited st)"
  from inv have base: "carve_base m0 st"
    and sub: "set (stack st) \<subseteq> ?V"
    and fin: "\<forall>p \<in> ?V. p \<notin> set (stack st) \<longrightarrow>
        (\<forall>d. in_bounds m0 (move p d) \<longrightarrow> move p d \<in> ?V)"
    by (simp_all add: carve_inv_def)
  have split: "set (stack st) = insert (last (stack st)) (set (butlast (stack st)))"
    using ne by (metis append_butlast_last_id insert_is_Un list.simps(15) set_append
        sup_commute empty_set)
  have fin': "\<forall>p \<in> ?V. p \<notin> set (butlast (stack st)) \<longrightarrow>
        (\<forall>d. in_bounds m0 (move p d) \<longrightarrow> move p d \<in> ?V)"
  proof (intro ballI impI allI)
    fix p d
    assume p: "p \<in> ?V" "p \<notin> set (butlast (stack st))" and d: "in_bounds m0 (move p d)"
    show "move p d \<in> ?V"
    proof (cases "p = last (stack st)")
      case True
      with nomore d show ?thesis by (simp add: visited_set_def)
    next
      case False
      with p split have "p \<notin> set (stack st)" by simp
      with fin p d show ?thesis by blast
    qed
  qed
  from sub have sub': "set (butlast (stack st)) \<subseteq> ?V" by (auto dest: in_set_butlastD)
  from inv show "carve_inv m0 (st\<lparr>stack := butlast (stack st), rand := g\<rparr>)"
    using carve_base_pop [OF base, of g] sub' fin' by (simp add: carve_inv_def)
  from ne show "carve_measure m0 (st\<lparr>stack := butlast (stack st), rand := g\<rparr>) < carve_measure m0 st"
    by (simp add: carve_measure_def)
qed

lemma carve_step_facts:
  assumes inv: "carve_inv m0 st" and ne: "stack st \<noteq> []"
  shows "\<exists>st'. carve_step st = Inr st' \<and> carve_inv m0 st' \<and>
           carve_measure m0 st' < carve_measure m0 st \<and>
           ((visited st' = visited st \<and> stack st' = butlast (stack st) \<and>
             (\<forall>d. in_bounds m0 (move (last (stack st)) d) \<longrightarrow>
                  nth2 (visited st) (move (last (stack st)) d))) \<or>
            (\<exists>d. in_bounds m0 (move (last (stack st)) d) \<and>
                 \<not> nth2 (visited st) (move (last (stack st)) d) \<and>
                 visited st' = upd2 (visited st) (move (last (stack st)) d) True \<and>
                 stack st' = stack st @ [move (last (stack st)) d]))"
proof -
  from inv have base: "carve_base m0 st" by (simp add: carve_inv_def)
  from carve_step_cases [OF base ne] show ?thesis
  proof (elim disjE exE conjE)
    fix d g'
    assume d: "in_bounds m0 (move (last (stack st)) d)"
      "\<not> nth2 (visited st) (move (last (stack st)) d)"
      and step: "carve_step st = Inr (push_state st d g')"
    from carve_inv_push [OF inv ne d, of g'] step d show ?thesis
      by (intro exI [of _ "push_state st d g'"]) (auto simp: push_state_simps)
  next
    fix g'
    assume d: "\<forall>d. in_bounds m0 (move (last (stack st)) d) \<longrightarrow>
                 nth2 (visited st) (move (last (stack st)) d)"
      and step: "carve_step st = Inr (st\<lparr>stack := butlast (stack st), rand := g'\<rparr>)"
    from carve_inv_pop [OF inv ne d, of g'] step d show ?thesis
      by (intro exI [of _ "st\<lparr>stack := butlast (stack st), rand := g'\<rparr>"]) simp
  qed
qed

lemma carve_step_inv:
  assumes inv: "carve_inv m0 st" and ne: "stack st \<noteq> []"
  shows "\<exists>st'. carve_step st = Inr st' \<and> carve_inv m0 st' \<and>
           carve_measure m0 st' < carve_measure m0 st"
  using carve_step_facts [OF inv ne] by blast

lemma carve_body_ok:
  assumes "carve_ok m0 x" and "carve_cond x"
  shows "carve_ok m0 (carve_body x) \<and> carve_size m0 (carve_body x) < carve_size m0 x"
proof -
  from assms obtain st where x: "x = Inr st" and inv: "carve_inv m0 st" and ne: "stack st \<noteq> []"
    by (cases x) (auto simp: carve_ok_def carve_cond_def)
  from carve_step_inv [OF inv ne] show ?thesis
    by (auto simp: x carve_body_def carve_ok_def carve_size_def)
qed

lemma carve_loop_total:
  assumes inv: "carve_inv m0 st0"
  shows "\<exists>st. carve_loop st0 = Some (Inr st) \<and> carve_inv m0 st \<and> stack st = []"
proof -
  have ok0: "carve_ok m0 (Inr st0)" using inv by (simp add: carve_ok_def)
  from measure_while_option_Some [where P = "carve_ok m0" and b = carve_cond
      and c = carve_body and f = "carve_size m0", OF carve_body_ok ok0]
  obtain t where t: "while_option carve_cond carve_body (Inr st0) = Some t"
    by blast
  have "carve_ok m0 t"
    using carve_body_ok [THEN conjunct1] t ok0
    by (rule while_option_rule [where P = "carve_ok m0"])
  moreover from t have "\<not> carve_cond t" by (rule while_option_stop)
  ultimately obtain st where "t = Inr st" "carve_inv m0 st" "stack st = []"
    by (cases t) (auto simp: carve_ok_def carve_cond_def)
  with t show ?thesis by (auto simp: carve_loop_def)
qed

lemma init_fresh: "init rws cls csz cx df = Inr m0 \<Longrightarrow> fresh m0"
  by (auto simp: init_def fresh_def shape_def in_bounds_def wall_def split: if_splits)

lemma carve_start_inv:
  assumes f: "fresh m0" and s: "in_bounds m0 (sr, sc)"
  shows "\<exists>st0. carve_start m0 sr sc g = Inr st0 \<and> carve_inv m0 st0 \<and>
           visited_set m0 (visited st0) = {(sr, sc)} \<and> stack st0 = [(sr, sc)] \<and> self st0 = m0"
proof -
  let ?v0 = "replicate (nat (rows m0)) (replicate (nat (cols m0)) False)"
  let ?st0 = "\<lparr>self = m0, visited = upd2 ?v0 (sr, sc) True, stack = [(sr, sc)], rand = g\<rparr>"
  have sv: "shape (rows m0) (cols m0) ?v0" by (rule shape_replicate)
  have st: "carve_start m0 sr sc g = Inr ?st0"
    by (simp add: carve_start_def set2_upd2 [OF sv s])
  have V: "visited_set m0 (visited ?st0) = {(sr, sc)}"
    using s by (auto simp: visited_set_def nth2_upd2 [OF sv s] nth2_replicate split: if_splits)
  from f have walls: "\<And>p d. in_bounds m0 p \<Longrightarrow> wall m0 p d"
    and sg: "shape (rows m0) (cols m0) (grid m0)"
    unfolding fresh_def by blast+
  have base: "carve_base m0 ?st0"
    using sg s by (simp add: carve_base_def same_params_def shape_upd2 [OF sv])
  have sym: "wall_symmetric m0" unfolding wall_symmetric_def using walls by blast
  have bc: "border_closed m0" unfolding border_closed_def using walls by blast
  have "\<forall>x y. \<not> open_adj m0 x y" unfolding open_adj_def using walls by blast
  then have t: "ltree {(sr, sc)} (open_adj m0)" by (rule ltree.ltree_single)
  have "carve_inv m0 ?st0"
    unfolding carve_inv_def V using base sym bc t by simp
  with st V show ?thesis by (intro exI [of _ ?st0]) simp
qed

lemma closed_column:
  assumes cl: "\<forall>p\<in>C. \<forall>d. in_bounds m (move p d) \<longrightarrow> move p d \<in> C"
    and a: "(r0, c0) \<in> C" and ain: "in_bounds m (r0, c0)"
  shows "in_bounds m (r, c0) \<Longrightarrow> (r, c0) \<in> C"
proof (cases "r0 \<le> r")
  case True
  then have "r < rows m \<longrightarrow> (r, c0) \<in> C"
  proof (induction r rule: int_ge_induct)
    case base
    from a show ?case by simp
  next
    case (step i)
    show ?case
    proof
      assume lt: "i + 1 < rows m"
      with step.IH have i: "(i, c0) \<in> C" by simp
      from lt step.hyps ain have "in_bounds m (move (i, c0) S)"
        by (simp add: in_bounds_def move_def)
      with cl i have "move (i, c0) S \<in> C" by blast
      then show "(i + 1, c0) \<in> C" by (simp add: move_def)
    qed
  qed
  moreover assume "in_bounds m (r, c0)"
  ultimately show ?thesis by (simp add: in_bounds_def)
next
  case False
  then have "r \<le> r0" by simp
  then have "0 \<le> r \<longrightarrow> (r, c0) \<in> C"
  proof (induction r rule: int_le_induct)
    case base
    from a show ?case by simp
  next
    case (step i)
    show ?case
    proof
      assume ge: "0 \<le> i - 1"
      with step.IH have i: "(i, c0) \<in> C" by simp
      from ge step.hyps ain have "in_bounds m (move (i, c0) N)"
        by (simp add: in_bounds_def move_def)
      with cl i have "move (i, c0) N \<in> C" by blast
      then show "(i - 1, c0) \<in> C" by (simp add: move_def)
    qed
  qed
  moreover assume "in_bounds m (r, c0)"
  ultimately show ?thesis by (simp add: in_bounds_def)
qed

lemma closed_row:
  assumes cl: "\<forall>p\<in>C. \<forall>d. in_bounds m (move p d) \<longrightarrow> move p d \<in> C"
    and a: "(r0, c0) \<in> C" and ain: "in_bounds m (r0, c0)"
  shows "in_bounds m (r0, c) \<Longrightarrow> (r0, c) \<in> C"
proof (cases "c0 \<le> c")
  case True
  then have "c < cols m \<longrightarrow> (r0, c) \<in> C"
  proof (induction c rule: int_ge_induct)
    case base
    from a show ?case by simp
  next
    case (step i)
    show ?case
    proof
      assume lt: "i + 1 < cols m"
      with step.IH have i: "(r0, i) \<in> C" by simp
      from lt step.hyps ain have "in_bounds m (move (r0, i) E)"
        by (simp add: in_bounds_def move_def)
      with cl i have "move (r0, i) E \<in> C" by blast
      then show "(r0, i + 1) \<in> C" by (simp add: move_def)
    qed
  qed
  moreover assume "in_bounds m (r0, c)"
  ultimately show ?thesis by (simp add: in_bounds_def)
next
  case False
  then have "c \<le> c0" by simp
  then have "0 \<le> c \<longrightarrow> (r0, c) \<in> C"
  proof (induction c rule: int_le_induct)
    case base
    from a show ?case by simp
  next
    case (step i)
    show ?case
    proof
      assume ge: "0 \<le> i - 1"
      with step.IH have i: "(r0, i) \<in> C" by simp
      from ge step.hyps ain have "in_bounds m (move (r0, i) W)"
        by (simp add: in_bounds_def move_def)
      with cl i have "move (r0, i) W \<in> C" by blast
      then show "(r0, i - 1) \<in> C" by (simp add: move_def)
    qed
  qed
  moreover assume "in_bounds m (r0, c)"
  ultimately show ?thesis by (simp add: in_bounds_def)
qed

lemma closed_all_cells:
  assumes cl: "\<forall>p\<in>C. \<forall>d. in_bounds m (move p d) \<longrightarrow> move p d \<in> C"
    and a: "a \<in> C" and sub: "C \<subseteq> cells m"
  shows "C = cells m"
proof
  show "cells m \<subseteq> C"
  proof
    fix x assume "x \<in> cells m"
    then have x: "in_bounds m x" by (simp add: cells_def)
    obtain r0 c0 where a0: "a = (r0, c0)" by (cases a)
    obtain r c where x0: "x = (r, c)" by (cases x)
    from a sub have ain: "in_bounds m (r0, c0)" by (auto simp: cells_def a0)
    from x ain have mid: "in_bounds m (r, c0)" by (simp add: in_bounds_def x0)
    from closed_column [OF cl _ ain mid] a have "(r, c0) \<in> C" by (simp add: a0)
    from closed_row [OF cl this mid] x show "x \<in> C" by (simp add: x0)
  qed
qed (rule sub)

lemma carve_inv_final:
  assumes inv: "carve_inv m0 st" and e: "stack st = []"
  shows "visited_set m0 (visited st) = cells m0"
proof -
  let ?V = "visited_set m0 (visited st)"
  from inv e have t: "ltree ?V (open_adj (self st))"
    and cl: "\<forall>p\<in>?V. \<forall>d. in_bounds m0 (move p d) \<longrightarrow> move p d \<in> ?V"
    by (simp_all add: carve_inv_def)
  from ltree_finite [OF t] obtain a where "a \<in> ?V" by blast
  moreover have "?V \<subseteq> cells m0" by (auto simp: visited_set_def cells_def)
  ultimately show ?thesis using cl by (intro closed_all_cells)
qed

lemma carve_reach_inv: "carve_reach st0 st \<Longrightarrow> carve_inv m0 st0 \<Longrightarrow> carve_inv m0 st"
proof (induction rule: carve_reach.induct)
  case reach_start
  then show ?case .
next
  case (reach_step st st')
  from reach_step.IH [OF reach_step.prems] have "carve_inv m0 st" .
  from carve_step_inv [OF this reach_step.hyps(2)] reach_step.hyps(3) show ?case by simp
qed

lemma carve_loop_reach:
  assumes "carve_loop st0 = Some (Inr st)"
  shows "carve_reach st0 st"
proof -
  let ?P = "\<lambda>x :: error + carve_state. case x of Inl e \<Rightarrow> True | Inr s \<Rightarrow> carve_reach st0 s"
  have "?P (Inr st)"
  proof (rule while_option_rule [where P = ?P, OF _ assms [unfolded carve_loop_def]])
    show "?P (Inr st0)" by (simp add: reach_start)
  next
    fix x assume "?P x" and "carve_cond x"
    then obtain s where x: "x = Inr s" and r: "carve_reach st0 s" and ne: "stack s \<noteq> []"
      by (cases x) (auto simp: carve_cond_def)
    show "?P (carve_body x)"
    proof (cases "carve_step s")
      case (Inl e)
      then show ?thesis by (simp add: x carve_body_def)
    next
      case (Inr s')
      from r ne Inr have "carve_reach st0 s'" by (rule reach_step)
      with Inr show ?thesis by (simp add: x carve_body_def)
    qed
  qed
  then show ?thesis by simp
qed

text \<open>The outcome of a whole run of \<open>_carve_passage\<close> on a fresh maze.\<close>

lemma carve_passage_result:
  assumes f: "fresh m0" and s: "in_bounds m0 (sr, sc)"
  shows "\<exists>st0 st. carve_start m0 sr sc g = Inr st0 \<and> carve_inv m0 st0 \<and>
           visited_set m0 (visited st0) = {(sr, sc)} \<and>
           carve_loop st0 = Some (Inr st) \<and>
           carve_passage m0 sr sc g = Some (Inr (self st, rand st)) \<and>
           carve_inv m0 st \<and> stack st = []"
proof -
  from carve_start_inv [OF f s, of g] obtain st0 where
    st0: "carve_start m0 sr sc g = Inr st0" "carve_inv m0 st0"
      "visited_set m0 (visited st0) = {(sr, sc)}"
    by blast
  from carve_loop_total [OF st0(2)] obtain st where
    st: "carve_loop st0 = Some (Inr st)" "carve_inv m0 st" "stack st = []"
    by blast
  from st0(1) st(1) have "carve_passage m0 sr sc g = Some (Inr (self st, rand st))"
    by (simp add: carve_passage_def)
  with st0 st show ?thesis by blast
qed

lemma carved_maze:
  assumes f: "fresh m0" and s: "in_bounds m0 (sr, sc)"
    and c: "carve_passage m0 sr sc g = Some (Inr (m, g'))"
  shows "same_params m m0 \<and> shape (rows m0) (cols m0) (grid m) \<and> wall_symmetric m \<and>
         border_closed m \<and> ltree (cells m0) (open_adj m)"
proof -
  from carve_passage_result [OF f s, of g] c obtain st where
    m: "m = self st" and inv: "carve_inv m0 st" and e: "stack st = []"
    by auto
  from carve_inv_final [OF inv e] inv show ?thesis
    by (auto simp: carve_inv_def carve_base_def m)
qed

section \<open>A complete run on a 2 by 2 maze\<close>

text \<open>The loop is evaluated round by round: from \<open>(0, 0)\<close> it goes south, east and
  north, and then pops four times.\<close>

lemma init_2x2: "init 2 2 20 (1/2) (1/2) = Inr maze_2x2"
  by (simp add: init_def maze_2x2_def numeral_2_eq_2)

lemma maze_2x2_fields:
  "rows maze_2x2 = 2" "cols maze_2x2 = 2" "complexity maze_2x2 = 1/2"
  "difficulty maze_2x2 = 1/2"
  "grid maze_2x2 = [[\<lambda>_. True, \<lambda>_. True], [\<lambda>_. True, \<lambda>_. True]]"
  by (simp_all add: maze_2x2_def)

lemma in_bounds_2x2: "in_bounds maze_2x2 (0, 0)"
  by (simp add: in_bounds_def maze_2x2_fields)

lemma zero_rng_draws:
  "random zero_rng = (0, zero_rng)"
  "choice [a] zero_rng = (a, zero_rng)"
  "choice [a, b] zero_rng = (a, zero_rng)"
  by (simp_all add: random_def choice_def randbelow_def rng_next_def zero_rng_def)

lemma carve_start_2x2:
  "carve_start maze_2x2 0 0 zero_rng =
     Inr \<lparr>self = maze_2x2, visited = [[True, False], [False, False]], stack = [(0, 0)],
          rand = zero_rng\<rparr>"
  by (simp add: carve_start_def maze_2x2_fields set2_def py_index_def numeral_2_eq_2)

lemmas neighbours_eval =
  unvisited_neighbours_def DIR_VEC_items_def py_int_def float_round_small py_slice_to_def
  shuffle_def randbelow_def rng_next_def zero_rng_def Let_def

lemma neighbours_2x2:
  assumes "rows m = 2" and "cols m = 2" and "complexity m = 1/2"
  shows "unvisited_neighbours m 0 0 [[True, False], [False, False]] zero_rng =
           ([(1, 0, S, N), (0, 1, E, W)], zero_rng)"
    and "unvisited_neighbours m 1 0 [[True, False], [True, False]] zero_rng =
           ([(1, 1, E, W)], zero_rng)"
    and "unvisited_neighbours m 1 1 [[True, False], [True, True]] zero_rng =
           ([(0, 1, N, S)], zero_rng)"
    and "unvisited_neighbours m 0 1 [[True, True], [True, True]] zero_rng = ([], zero_rng)"
    and "unvisited_neighbours m 1 1 [[True, True], [True, True]] zero_rng = ([], zero_rng)"
    and "unvisited_neighbours m 1 0 [[True, True], [True, True]] zero_rng = ([], zero_rng)"
    and "unvisited_neighbours m 0 0 [[True, True], [True, True]] zero_rng = ([], zero_rng)"
  by (simp_all add: neighbours_eval assms)

lemmas step_eval =
  carve_step_def neighbours_2x2 zero_rng_draws maze_2x2_fields set_wall_def get2_def set2_def
  py_index_def

lemma carve_round_1:
  "carve_step \<lparr>self = maze_2x2, visited = [[True, False], [False, False]], stack = [(0, 0)],
          rand = zero_rng\<rparr> =
     Inr \<lparr>self = maze_2x2\<lparr>grid := [[(\<lambda>_. True)(S := False), \<lambda>_. True],
                                    [(\<lambda>_. True)(N := False), \<lambda>_. True]]\<rparr>,
          visited = [[True, False], [True, False]], stack = [(0, 0), (1, 0)],
          rand = zero_rng\<rparr>"
  by (simp add: step_eval)

lemma carve_between_2x2:
  "carve_between \<lparr>self = maze_2x2, visited = [[True, False], [False, False]],
          stack = [(0, 0)], rand = zero_rng\<rparr> = Some (Inr between_2x2)"
  by (simp add: carve_between_def between_2x2_def neighbours_2x2 zero_rng_draws
      maze_2x2_fields set_wall_def get2_def set2_def py_index_def)

lemma between_2x2_fields: "rows between_2x2 = 2" "cols between_2x2 = 2"
  by (simp_all add: between_2x2_def maze_2x2_fields)

lemma between_2x2_walls:
  "\<not> wall between_2x2 (0, 0) S" "wall between_2x2 (1, 0) N"
  by (simp_all add: wall_def between_2x2_def maze_2x2_fields)

lemma carve_round_2:
  "carve_step \<lparr>self = maze_2x2\<lparr>grid := [[(\<lambda>_. True)(S := False), \<lambda>_. True],
                                    [(\<lambda>_. True)(N := False), \<lambda>_. True]]\<rparr>,
          visited = [[True, False], [True, False]], stack = [(0, 0), (1, 0)],
          rand = zero_rng\<rparr> =
     Inr \<lparr>self = maze_2x2\<lparr>grid := [[(\<lambda>_. True)(S := False), \<lambda>_. True],
             [(\<lambda>_. True)(N := False, E := False), (\<lambda>_. True)(W := False)]]\<rparr>,
          visited = [[True, False], [True, True]], stack = [(0, 0), (1, 0), (1, 1)],
          rand = zero_rng\<rparr>"
  by (simp add: step_eval)

lemma carve_round_3:
  "carve_step \<lparr>self = maze_2x2\<lparr>grid := [[(\<lambda>_. True)(S := False), \<lambda>_. True],
             [(\<lambda>_. True)(N := False, E := False), (\<lambda>_. True)(W := False)]]\<rparr>,
          visited = [[True, False], [True, True]], stack = [(0, 0), (1, 0), (1, 1)],
          rand = zero_rng\<rparr> =
     Inr \<lparr>self = carved_2x2,
          visited = [[True, True], [True, True]], stack = [(0, 0), (1, 0), (1, 1), (0, 1)],
          rand = zero_rng\<rparr>"
  by (simp add: step_eval carved_2x2_def)

lemma carve_round_pop:
  "carve_step \<lparr>self = carved_2x2, visited = [[True, True], [True, True]],
          stack = [(0, 0), (1, 0), (1, 1), (0, 1)], rand = zero_rng\<rparr> =
     Inr \<lparr>self = carved_2x2, visited = [[True, True], [True, True]],
          stack = [(0, 0), (1, 0), (1, 1)], rand = zero_rng\<rparr>"
  "carve_step \<lparr>self = carved_2x2, visited = [[True, True], [True, True]],
          stack = [(0, 0), (1, 0), (1, 1)], rand = zero_rng\<rparr> =
     Inr \<lparr>self = carved_2x2, visited = [[True, True], [True, True]],
          stack = [(0, 0), (1, 0)], rand = zero_rng\<rparr>"
  "carve_step \<lparr>self = carved_2x2, visited = [[True, True], [True, True]],
          stack = [(0, 0), (1, 0)], rand = zero_rng\<rparr> =
     Inr \<lparr>self = carved_2x2, visited = [[True, True], [True, True]],
          stack = [(0, 0)], rand = zero_rng\<rparr>"
  "carve_step \<lparr>self = carved_2x2, visited = [[True, True], [True, True]],
          stack = [(0, 0)], rand = zero_rng\<rparr> =
     Inr \<lparr>self = carved_2x2, visited = [[True, True], [True, True]],
          stack = [], rand = zero_rng\<rparr>"
  by (simp_all add: carve_step_def carved_2x2_def neighbours_2x2 maze_2x2_fields)

lemma carve_loop_2x2:
  "carve_loop \<lparr>self = maze_2x2, visited = [[True, False], [False, False]], stack = [(0, 0)],
          rand = zero_rng\<rparr> =
     Some (Inr \<lparr>self = carved_2x2, visited = [[True, True], [True, True]], stack = [],
          rand = zero_rng\<rparr>)"
  unfolding carve_loop_def
  by (simp add: while_option_unfold carve_cond_def carve_body_def carve_round_1 carve_round_2
      carve_round_3 carve_round_pop)

lemma carve_passage_2x2:
  "carve_passage maze_2x2 0 0 zero_rng = Some (Inr (carved_2x2, zero_rng))"
  by (simp add: carve_passage_def carve_start_2x2 carve_loop_2x2)

section \<open>Termination of the carving loop\<close>

lemma visited_set_card: "card (visited_set m vis) \<le> nat (rows m * cols m)"
proof -
  have "visited_set m vis \<subseteq> cells m" by (auto simp: visited_set_def cells_def)
  then have "card (visited_set m vis) \<le> card (cells m)"
    by (intro card_mono finite_cells)
  also have "card (cells m) \<le> nat (rows m * cols m)"
  proof (cases "0 \<le> rows m \<and> 0 \<le> cols m")
    case True
    then show ?thesis by (simp add: card_cells nat_mult_distrib)
  next
    case False
    then have "nat (rows m) = 0 \<or> nat (cols m) = 0" by auto
    then show ?thesis by (auto simp: card_cells)
  qed
  finally show ?thesis .
qed

lemma visited_set_upd2:
  assumes "shape (rows m) (cols m) vis" and "in_bounds m n"
  shows "visited_set m (upd2 vis n True) = insert n (visited_set m vis)"
proof (rule set_eqI)
  fix x
  show "x \<in> visited_set m (upd2 vis n True) \<longleftrightarrow> x \<in> insert n (visited_set m vis)"
    using assms(2)
    by (cases "in_bounds m x") (auto simp: visited_set_def nth2_upd2 [OF assms])
qed

text \<open>
  Claim C8. On a freshly constructed maze and an in-bounds start cell,
  \<open>_carve_passage\<close> returns, without raising. In every state the loop reaches, one
  more round neither raises nor loses a visited cell, the visited cells stay at most
  \<open>rows \<times> cols\<close> many, the stack gets shorter when the top cell has no unvisited
  neighbour, and twice the number of unvisited cells plus the stack height goes down.
\<close>

theorem carve_terminates:
  assumes "init rws cls csz cx df = Inr m0" and "in_bounds m0 (start_r, start_c)"
  shows "(\<exists>m g'. carve_passage m0 start_r start_c g = Some (Inr (m, g'))) \<and>
         (\<forall>st0 st. carve_start m0 start_r start_c g = Inr st0 \<and> carve_reach st0 st \<and>
              stack st \<noteq> [] \<longrightarrow>
            (\<exists>st'. carve_step st = Inr st' \<and>
               visited_set m0 (visited st) \<subseteq> visited_set m0 (visited st') \<and>
               card (visited_set m0 (visited st')) \<le> nat (rows m0 * cols m0) \<and>
               ((\<forall>d. in_bounds m0 (move (last (stack st)) d) \<longrightarrow>
                     nth2 (visited st) (move (last (stack st)) d)) \<longrightarrow>
                  length (stack st') < length (stack st)) \<and>
               carve_measure m0 st' < carve_measure m0 st))"
proof (intro conjI allI impI, goal_cases)
  case 1
  from carve_passage_result [OF init_fresh [OF assms(1)] assms(2), of g]
  show ?case by blast
next
  case (2 st0 st)
  from carve_passage_result [OF init_fresh [OF assms(1)] assms(2), of g] 2
  have "carve_inv m0 st0" by auto
  with 2 have inv: "carve_inv m0 st" by (blast intro: carve_reach_inv)
  from 2 have ne: "stack st \<noteq> []" by simp
  from inv have sv: "shape (rows m0) (cols m0) (visited st)"
    by (simp add: carve_inv_def carve_base_def)
  from carve_step_facts [OF inv ne] obtain st' where
    step: "carve_step st = Inr st'" and less: "carve_measure m0 st' < carve_measure m0 st"
    and cases: "(visited st' = visited st \<and> stack st' = butlast (stack st)) \<or>
            (\<exists>d. in_bounds m0 (move (last (stack st)) d) \<and>
                 \<not> nth2 (visited st) (move (last (stack st)) d) \<and>
                 visited st' = upd2 (visited st) (move (last (stack st)) d) True)"
    by blast
  from cases have mono: "visited_set m0 (visited st) \<subseteq> visited_set m0 (visited st')"
    by (auto simp: visited_set_upd2 [OF sv])
  from cases ne have shrink: "(\<forall>d. in_bounds m0 (move (last (stack st)) d) \<longrightarrow>
                     nth2 (visited st) (move (last (stack st)) d)) \<longrightarrow>
                  length (stack st') < length (stack st)"
    by auto
  from step mono shrink less visited_set_card [of m0 "visited st'"] show ?case by blast
qed

theorem carve_terminates_witness:
  "init 2 2 20 (1/2) (1/2) = Inr maze_2x2 \<and> in_bounds maze_2x2 (0, 0) \<and>
   (\<exists>m g'. carve_passage maze_2x2 0 0 zero_rng = Some (Inr (m, g'))) \<and>
   (\<exists>st'. carve_step \<lparr>self = maze_2x2, visited = [[True, False], [False, False]],
                 stack = [(0, 0)], rand = zero_rng\<rparr> = Inr st' \<and>
      carve_measure maze_2x2 st' <
        carve_measure maze_2x2 \<lparr>self = maze_2x2, visited = [[True, False], [False, False]],
                 stack = [(0, 0)], rand = zero_rng\<rparr>)"
proof -
  let ?st0 = "\<lparr>self = maze_2x2, visited = [[True, False], [False, False]],
     stack = [(0, 0)], rand = zero_rng\<rparr>"
  have r: "carve_reach ?st0 ?st0" by (rule reach_start)
  have ne: "stack ?st0 \<noteq> []" by simp
  note t = carve_terminates [OF init_2x2 in_bounds_2x2, of zero_rng]
  from t have 1: "\<exists>m g'. carve_passage maze_2x2 0 0 zero_rng = Some (Inr (m, g'))"
    by (rule conjunct1)
  from t [THEN conjunct2, rule_format, of ?st0 ?st0] carve_start_2x2 r ne
  have 2: "\<exists>st'. carve_step ?st0 = Inr st' \<and>
      carve_measure maze_2x2 st' < carve_measure maze_2x2 ?st0"
    by blast
  from init_2x2 in_bounds_2x2 1 2 show ?thesis by blast
qed

subsection \<open>Between the two assignments of a wall pair\<close>

text \<open>In a round that carves, the maze between the two assignments has the wall of the
  top cell toward the chosen neighbour down and the neighbour's wall back still up;
  every other pair of walls is as at the head of the round.\<close>

lemma carve_between_walls:
  assumes inv: "carve_inv m0 st" and ne: "stack st \<noteq> []"
    and cb: "carve_between st = Some x"
  shows "\<exists>m1 d. x = Inr m1 \<and> in_bounds m0 (move (last (stack st)) d) \<and>
           \<not> wall m1 (last (stack st)) d \<and>
           wall m1 (move (last (stack st)) d) (OPPOSITE d) \<and>
           (\<forall>p e. in_bounds m0 p \<and> in_bounds m0 (move p e) \<and>
                  (p, e) \<noteq> (last (stack st), d) \<and>
                  (p, e) \<noteq> (move (last (stack st)) d, OPPOSITE d) \<longrightarrow>
              wall m1 p e = wall m1 (move p e) (OPPOSITE e))"
proof -
  let ?t = "last (stack st)"
  from inv have base: "carve_base m0 st" and ws: "wall_symmetric (self st)"
    and tree: "ltree (visited_set m0 (visited st)) (open_adj (self st))"
    by (simp_all add: carve_inv_def)
  from base have sp: "same_params (self st) m0"
    and sg0: "shape (rows m0) (cols m0) (grid (self st))"
    by (simp_all add: carve_base_def)
  from sp sg0 have sg: "shape (rows (self st)) (cols (self st)) (grid (self st))"
    by (simp add: same_params_def)
  note ib = in_bounds_self [OF base]
  from base ne have tin: "in_bounds m0 ?t"
    using last_in_set [OF ne] by (auto simp: carve_base_def)
  from carve_between_cases [OF base ne] cb obtain d where
    dn: "in_bounds m0 (move ?t d)" and dv: "\<not> nth2 (visited st) (move ?t d)"
    and x: "x = Inr ((self st)\<lparr>grid := upd2 (grid (self st)) ?t
                ((nth2 (grid (self st)) ?t)(d := False))\<rparr>)"
    by auto
  let ?m1 = "(self st)\<lparr>grid := upd2 (grid (self st)) ?t
                ((nth2 (grid (self st)) ?t)(d := False))\<rparr>"
  have w: "wall ?m1 a e \<longleftrightarrow> wall (self st) a e \<and> \<not> (a = ?t \<and> e = d)"
    if "in_bounds m0 a" for a e
    using sg tin that unfolding ib [symmetric] by (rule wall_open_here)
  have bk: "wall (self st) (move ?t d) (OPPOSITE d)"
  proof (rule ccontr)
    assume "\<not> wall (self st) (move ?t d) (OPPOSITE d)"
    with tin dn have "open_adj (self st) (move ?t d) ?t"
      unfolding open_adj_def ib using move_opposite [of ?t d] by metis
    with tree have "move ?t d \<in> visited_set m0 (visited st)" by (blast dest: ltree_dom)
    with dv show False by (simp add: visited_set_def)
  qed
  have 1: "\<not> wall ?m1 ?t d" using w [OF tin] by simp
  have 2: "wall ?m1 (move ?t d) (OPPOSITE d)"
    using w [OF dn] bk move_neq [of ?t d] by simp
  have 3: "wall ?m1 p e = wall ?m1 (move p e) (OPPOSITE e)"
    if h: "in_bounds m0 p \<and> in_bounds m0 (move p e) \<and> (p, e) \<noteq> (?t, d) \<and>
         (p, e) \<noteq> (move ?t d, OPPOSITE d)" for p e
  proof -
    from h have pin: "in_bounds m0 p" and nin: "in_bounds m0 (move p e)" by simp_all
    from h have a: "\<not> (p = ?t \<and> e = d)" by simp
    from h have "\<not> (p = move ?t d \<and> e = OPPOSITE d)" by simp
    then have b: "\<not> (move p e = ?t \<and> OPPOSITE e = d)"
      by (metis move_opposite opposite_opposite)
    from ws pin nin have "wall (self st) p e = wall (self st) (move p e) (OPPOSITE e)"
      unfolding wall_symmetric_def ib by blast
    with a b show ?thesis unfolding w [OF pin] w [OF nin] by simp
  qed
  from x dn 1 2 3 show ?thesis by blast
qed

section \<open>Wall symmetry\<close>

text \<open>
  Claim C5 says that wall symmetry holds at every point during carving. It does not
  hold between the two assignments that knock down a wall pair: in the first round of
  carving the 2 by 2 maze from \<open>(0, 0)\<close>, after
  \<open>self.grid[r][c][here_dir] = False\<close> the S wall of \<open>(0, 0)\<close> is open and the N
  wall of \<open>(1, 0)\<close> is still present.
\<close>

theorem wall_asymmetric_between_counterexample:
  "init 2 2 20 (1/2) (1/2) = Inr maze_2x2 \<and>
   carve_start maze_2x2 0 0 zero_rng =
     Inr \<lparr>self = maze_2x2, visited = [[True, False], [False, False]], stack = [(0, 0)],
          rand = zero_rng\<rparr> \<and>
   carve_between \<lparr>self = maze_2x2, visited = [[True, False], [False, False]],
          stack = [(0, 0)], rand = zero_rng\<rparr> = Some (Inr between_2x2) \<and>
   in_bounds between_2x2 (0, 0) \<and> in_bounds between_2x2 (move (0, 0) S) \<and>
   \<not> wall between_2x2 (0, 0) S \<and> wall between_2x2 (move (0, 0) S) (OPPOSITE S)"
  by (simp add: init_2x2 carve_start_2x2 carve_between_2x2 between_2x2_walls move_def
      in_bounds_def between_2x2_fields)

text \<open>
  Claim C5 as amended. On a freshly constructed maze all walls are present. In every
  state at the head of the carving loop, reached from an in-bounds start cell, and in the
  maze that \<open>_carve_passage\<close> returns, each cell's wall toward an in-bounds neighbour
  is present exactly when the neighbour's wall back is present. Inside a round that
  carves, between its two wall assignments, the wall of the current cell toward the
  chosen neighbour is open and the neighbour's wall back is still present, and every
  other pair of facing walls agrees.
\<close>

theorem wall_symmetry_invariant:
  assumes "init rws cls csz cx df = Inr m0" and "in_bounds m0 (start_r, start_c)"
    and "carve_start m0 start_r start_c g = Inr st0" and "carve_reach st0 st"
  shows "(\<forall>p d. in_bounds m0 p \<longrightarrow> wall m0 p d) \<and>
         (\<forall>p d. in_bounds m0 p \<and> in_bounds m0 (move p d) \<longrightarrow>
            wall (self st) p d = wall (self st) (move p d) (OPPOSITE d)) \<and>
         (\<forall>m g'. carve_passage m0 start_r start_c g = Some (Inr (m, g')) \<longrightarrow>
            (\<forall>p d. in_bounds m0 p \<and> in_bounds m0 (move p d) \<longrightarrow>
               wall m p d = wall m (move p d) (OPPOSITE d))) \<and>
         (\<forall>x. stack st \<noteq> [] \<and> carve_between st = Some x \<longrightarrow>
            (\<exists>m1 d. x = Inr m1 \<and> in_bounds m0 (move (last (stack st)) d) \<and>
               \<not> wall m1 (last (stack st)) d \<and>
               wall m1 (move (last (stack st)) d) (OPPOSITE d) \<and>
               (\<forall>p e. in_bounds m0 p \<and> in_bounds m0 (move p e) \<and>
                      (p, e) \<noteq> (last (stack st), d) \<and>
                      (p, e) \<noteq> (move (last (stack st)) d, OPPOSITE d) \<longrightarrow>
                  wall m1 p e = wall m1 (move p e) (OPPOSITE e))))"
proof -
  note f = init_fresh [OF assms(1)]
  from carve_passage_result [OF f assms(2), of g] assms(3)
  have "carve_inv m0 st0" by auto
  with assms(4) have inv: "carve_inv m0 st" by (blast intro: carve_reach_inv)
  then have "wall_symmetric (self st)" and "carve_base m0 st"
    by (simp_all add: carve_inv_def)
  then have 2: "\<forall>p d. in_bounds m0 p \<and> in_bounds m0 (move p d) \<longrightarrow>
            wall (self st) p d = wall (self st) (move p d) (OPPOSITE d)"
    unfolding wall_symmetric_def by (simp only: in_bounds_self)
  have 3: "\<forall>p d. in_bounds m0 p \<and> in_bounds m0 (move p d) \<longrightarrow>
               wall m p d = wall m (move p d) (OPPOSITE d)"
    if "carve_passage m0 start_r start_c g = Some (Inr (m, g'))" for m g'
  proof -
    from carved_maze [OF f assms(2) that]
    have "wall_symmetric m" and "same_params m m0" by simp_all
    then show ?thesis
      unfolding wall_symmetric_def by (simp only: in_bounds_same)
  qed
  from f have 1: "\<forall>p d. in_bounds m0 p \<longrightarrow> wall m0 p d" unfolding fresh_def by blast
  have 4: "\<exists>m1 d. x = Inr m1 \<and> in_bounds m0 (move (last (stack st)) d) \<and>
               \<not> wall m1 (last (stack st)) d \<and>
               wall m1 (move (last (stack st)) d) (OPPOSITE d) \<and>
               (\<forall>p e. in_bounds m0 p \<and> in_bounds m0 (move p e) \<and>
                      (p, e) \<noteq> (last (stack st), d) \<and>
                      (p, e) \<noteq> (move (last (stack st)) d, OPPOSITE d) \<longrightarrow>
                  wall m1 p e = wall m1 (move p e) (OPPOSITE e))"
    if "stack st \<noteq> [] \<and> carve_between st = Some x" for x
    using carve_between_walls [OF inv] that by blast
  show ?thesis
  proof (intro conjI)
    show "\<forall>p d. in_bounds m0 p \<longrightarrow> wall m0 p d" by (rule 1)
    show "\<forall>p d. in_bounds m0 p \<and> in_bounds m0 (move p d) \<longrightarrow>
            wall (self st) p d = wall (self st) (move p d) (OPPOSITE d)" by (rule 2)
    show "\<forall>m g'. carve_passage m0 start_r start_c g = Some (Inr (m, g')) \<longrightarrow>
            (\<forall>p d. in_bounds m0 p \<and> in_bounds m0 (move p d) \<longrightarrow>
               wall m p d = wall m (move p d) (OPPOSITE d))" using 3 by blast
    show "\<forall>x. stack st \<noteq> [] \<and> carve_between st = Some x \<longrightarrow>
            (\<exists>m1 d. x = Inr m1 \<and> in_bounds m0 (move (last (stack st)) d) \<and>
               \<not> wall m1 (last (stack st)) d \<and>
               wall m1 (move (last (stack st)) d) (OPPOSITE d) \<and>
               (\<forall>p e. in_bounds m0 p \<and> in_bounds m0 (move p e) \<and>
                      (p, e) \<noteq> (last (stack st), d) \<and>
                      (p, e) \<noteq> (move (last (stack st)) d, OPPOSITE d) \<longrightarrow>
                  wall m1 p e = wall m1 (move p e) (OPPOSITE e)))" using 4 by blast
  qed
qed

theorem wall_symmetry_invariant_witness:
  "init 2 2 20 (1/2) (1/2) = Inr maze_2x2 \<and> in_bounds maze_2x2 (0, 0) \<and>
   carve_reach \<lparr>self = maze_2x2, visited = [[True, False], [False, False]],
                 stack = [(0, 0)], rand = zero_rng\<rparr>
     \<lparr>self = maze_2x2\<lparr>grid := [[(\<lambda>_. True)(S := False), \<lambda>_. True],
                                    [(\<lambda>_. True)(N := False), \<lambda>_. True]]\<rparr>,
          visited = [[True, False], [True, False]], stack = [(0, 0), (1, 0)],
          rand = zero_rng\<rparr> \<and>
   in_bounds maze_2x2 (move (0, 0) S) \<and>
   wall (maze_2x2\<lparr>grid := [[(\<lambda>_. True)(S := False), \<lambda>_. True],
                                    [(\<lambda>_. True)(N := False), \<lambda>_. True]]\<rparr>) (0, 0) S =
   wall (maze_2x2\<lparr>grid := [[(\<lambda>_. True)(S := False), \<lambda>_. True],
                                    [(\<lambda>_. True)(N := False), \<lambda>_. True]]\<rparr>)
        (move (0, 0) S) (OPPOSITE S) \<and>
   in_bounds maze_2x2 (1, 0) \<and> in_bounds maze_2x2 (move (1, 0) E) \<and>
   wall carved_2x2 (1, 0) E = wall carved_2x2 (move (1, 0) E) (OPPOSITE E) \<and>
   carve_between \<lparr>self = maze_2x2, visited = [[True, False], [False, False]],
                 stack = [(0, 0)], rand = zero_rng\<rparr> = Some (Inr between_2x2) \<and>
   (\<exists>d. in_bounds maze_2x2 (move (0, 0) d) \<and> \<not> wall between_2x2 (0, 0) d \<and>
        wall between_2x2 (move (0, 0) d) (OPPOSITE d)) \<and>
   wall between_2x2 (0, 0) E = wall between_2x2 (move (0, 0) E) (OPPOSITE E)"
proof -
  let ?st0 = "\<lparr>self = maze_2x2, visited = [[True, False], [False, False]],
     stack = [(0, 0)], rand = zero_rng\<rparr>"
  let ?st1 = "\<lparr>self = maze_2x2\<lparr>grid := [[(\<lambda>_. True)(S := False), \<lambda>_. True],
                                    [(\<lambda>_. True)(N := False), \<lambda>_. True]]\<rparr>,
          visited = [[True, False], [True, False]], stack = [(0, 0), (1, 0)],
          rand = zero_rng\<rparr>"
  have r: "carve_reach ?st0 ?st1"
    by (rule reach_step [OF reach_start _ carve_round_1]) simp
  have b: "in_bounds maze_2x2 (move (0, 0) S)" "in_bounds maze_2x2 (1, 0)"
    "in_bounds maze_2x2 (move (1, 0) E)" "in_bounds maze_2x2 (move (0, 0) E)"
    by (simp_all add: in_bounds_def maze_2x2_fields move_def)
  note t = wall_symmetry_invariant [OF init_2x2 in_bounds_2x2 carve_start_2x2 r]
  from t in_bounds_2x2 b(1)
  have 1: "wall (self ?st1) (0, 0) S = wall (self ?st1) (move (0, 0) S) (OPPOSITE S)"
    by blast
  from t carve_passage_2x2 b(2,3)
  have 2: "wall carved_2x2 (1, 0) E = wall carved_2x2 (move (1, 0) E) (OPPOSITE E)"
    by blast
  have pre: "stack ?st0 \<noteq> [] \<and> carve_between ?st0 = Some (Inr between_2x2)"
    using carve_between_2x2 by simp
  note t0 = wall_symmetry_invariant [OF init_2x2 in_bounds_2x2 carve_start_2x2 reach_start]
  note c4 = t0 [THEN conjunct2, THEN conjunct2, THEN conjunct2, THEN spec, THEN mp, OF pre]
  have 3: "(\<exists>d. in_bounds maze_2x2 (move (0, 0) d) \<and> \<not> wall between_2x2 (0, 0) d \<and>
              wall between_2x2 (move (0, 0) d) (OPPOSITE d)) \<and>
           wall between_2x2 (0, 0) E = wall between_2x2 (move (0, 0) E) (OPPOSITE E)"
    using c4
  proof (elim exE conjE)
    fix m1 d
    assume m1: "Inr between_2x2 = (Inr m1 :: error + maze)"
      and dn: "in_bounds maze_2x2 (move (last (stack ?st0)) d)"
      and o: "\<not> wall m1 (last (stack ?st0)) d"
      and w: "wall m1 (move (last (stack ?st0)) d) (OPPOSITE d)"
      and rest: "\<forall>p e. in_bounds maze_2x2 p \<and> in_bounds maze_2x2 (move p e) \<and>
                  (p, e) \<noteq> (last (stack ?st0), d) \<and>
                  (p, e) \<noteq> (move (last (stack ?st0)) d, OPPOSITE d) \<longrightarrow>
              wall m1 p e = wall m1 (move p e) (OPPOSITE e)"
    from m1 have e: "m1 = between_2x2" by simp
    from o have dS: "d = S"
      unfolding e by (cases d) (simp_all add: wall_def between_2x2_def maze_2x2_fields)
    from dn o w have "in_bounds maze_2x2 (move (0, 0) d) \<and> \<not> wall between_2x2 (0, 0) d \<and>
              wall between_2x2 (move (0, 0) d) (OPPOSITE d)"
      unfolding e by simp
    then have x: "\<exists>d. in_bounds maze_2x2 (move (0, 0) d) \<and> \<not> wall between_2x2 (0, 0) d \<and>
              wall between_2x2 (move (0, 0) d) (OPPOSITE d)" by (rule exI)
    have "in_bounds maze_2x2 (0, 0) \<and> in_bounds maze_2x2 (move (0, 0) E) \<and>
            ((0, 0), E) \<noteq> (last (stack ?st0), d) \<and>
            ((0, 0), E) \<noteq> (move (last (stack ?st0)) d, OPPOSITE d)"
      using in_bounds_2x2 b(4) unfolding dS by (simp add: move_def)
    with rest have "wall m1 (0, 0) E = wall m1 (move (0, 0) E) (OPPOSITE E)" by blast
    with x show ?thesis unfolding e by (rule conjI)
  qed
  from init_2x2 in_bounds_2x2 r b(1,2,3) 1 2 3 carve_between_2x2 show ?thesis
    by (intro conjI) (simp_all only: simp_thms carve_state.select_convs)
qed

section \<open>The spanning tree\<close>

text \<open>
  Claim C1. On a freshly constructed maze and an in-bounds start cell,
  \<open>_carve_passage\<close> returns; at the start only the start cell is marked visited, every
  later round either pops the stack and marks nothing or marks and pushes one cell that
  was not visited before, and at the end every cell is marked. In the returned maze the
  open-wall graph on the cells is connected, has no cycle, and has exactly
  \<open>rows \<times> cols - 1\<close> edges.
\<close>

theorem carve_spanning_tree:
  assumes "init rws cls csz cx df = Inr m0" and "in_bounds m0 (start_r, start_c)"
  shows "\<exists>st0 st.
           carve_start m0 start_r start_c g = Inr st0 \<and>
           carve_loop st0 = Some (Inr st) \<and>
           carve_passage m0 start_r start_c g = Some (Inr (self st, rand st)) \<and>
           visited_set m0 (visited st0) = {(start_r, start_c)} \<and>
           (\<forall>s s'. carve_reach st0 s \<and> stack s \<noteq> [] \<and> carve_step s = Inr s' \<longrightarrow>
              (visited s' = visited s \<and> stack s' = butlast (stack s)) \<or>
              (\<exists>n. in_bounds m0 n \<and> \<not> nth2 (visited s) n \<and>
                   visited s' = upd2 (visited s) n True \<and> stack s' = stack s @ [n])) \<and>
           (\<forall>p. in_bounds m0 p \<longrightarrow> nth2 (visited st) p) \<and>
           connected_on (cells m0) (open_adj (self st)) \<and>
           (\<forall>p. \<not> cycle (open_adj (self st)) p) \<and>
           int (card (edge_pairs (open_adj (self st)))) = rows m0 * cols m0 - 1"
proof -
  note f = init_fresh [OF assms(1)]
  from carve_passage_result [OF f assms(2), of g] obtain st0 st where
    st0: "carve_start m0 start_r start_c g = Inr st0" and inv0: "carve_inv m0 st0"
    and v0: "visited_set m0 (visited st0) = {(start_r, start_c)}"
    and loop: "carve_loop st0 = Some (Inr st)"
    and res: "carve_passage m0 start_r start_c g = Some (Inr (self st, rand st))"
    and inv: "carve_inv m0 st" and e: "stack st = []"
    by blast
  have once: "(visited s' = visited s \<and> stack s' = butlast (stack s)) \<or>
              (\<exists>n. in_bounds m0 n \<and> \<not> nth2 (visited s) n \<and>
                   visited s' = upd2 (visited s) n True \<and> stack s' = stack s @ [n])"
    if "carve_reach st0 s" and "stack s \<noteq> []" and "carve_step s = Inr s'" for s s'
  proof -
    from that(1) inv0 have "carve_inv m0 s" by (rule carve_reach_inv)
    from carve_step_facts [OF this that(2)] obtain st' where
      "carve_step s = Inr st'"
      and c: "(visited st' = visited s \<and> stack st' = butlast (stack s)) \<or>
            (\<exists>d. in_bounds m0 (move (last (stack s)) d) \<and>
                 \<not> nth2 (visited s) (move (last (stack s)) d) \<and>
                 visited st' = upd2 (visited s) (move (last (stack s)) d) True \<and>
                 stack st' = stack s @ [move (last (stack s)) d])"
      by blast
    with that(3) have "st' = s'" by simp
    with c show ?thesis by blast
  qed
  from carve_inv_final [OF inv e] have all: "visited_set m0 (visited st) = cells m0" .
  then have every: "\<forall>p. in_bounds m0 p \<longrightarrow> nth2 (visited st) p"
    by (auto simp: visited_set_def cells_def)
  from inv all have t: "ltree (cells m0) (open_adj (self st))"
    by (simp add: carve_inv_def)
  have conn: "connected_on (cells m0) (open_adj (self st))"
    unfolding connected_on_def using ltree_connected [OF t] by blast
  have acyc: "\<forall>p. \<not> cycle (open_adj (self st)) p"
    using ltree_acyclic [OF t] by blast
  from f have "2 \<le> rows m0" "2 \<le> cols m0" by (simp_all add: fresh_def)
  then have "0 < nat (rows m0) * nat (cols m0)"
    and "int (nat (rows m0) * nat (cols m0)) = rows m0 * cols m0"
    by simp_all
  then have "int (nat (rows m0) * nat (cols m0) - 1) = rows m0 * cols m0 - 1"
    by linarith
  with ltree_edge_pairs [OF t]
  have count: "int (card (edge_pairs (open_adj (self st)))) = rows m0 * cols m0 - 1"
    by (simp add: card_cells)
  from st0 loop res v0 once every conn acyc count show ?thesis by blast
qed

theorem carve_spanning_tree_witness:
  "init 2 2 20 (1/2) (1/2) = Inr maze_2x2 \<and> in_bounds maze_2x2 (0, 0) \<and>
   carve_passage maze_2x2 0 0 zero_rng = Some (Inr (carved_2x2, zero_rng)) \<and>
   connected_on (cells maze_2x2) (open_adj carved_2x2) \<and>
   (\<forall>p. \<not> cycle (open_adj carved_2x2) p) \<and>
   int (card (edge_pairs (open_adj carved_2x2))) = 3"
proof -
  have n: "rows maze_2x2 * cols maze_2x2 - 1 = 3" by (simp add: maze_2x2_fields)
  from carve_spanning_tree [OF init_2x2 in_bounds_2x2, of zero_rng]
  obtain st :: carve_state where
    c: "carve_passage maze_2x2 0 0 zero_rng = Some (Inr (self st, rand st))"
    and t: "connected_on (cells maze_2x2) (open_adj (self st))"
      "\<forall>p. \<not> cycle (open_adj (self st)) p"
      "int (card (edge_pairs (open_adj (self st)))) = rows maze_2x2 * cols maze_2x2 - 1"
    by blast
  from c have "self st = carved_2x2" by (simp add: carve_passage_2x2)
  with t init_2x2 in_bounds_2x2 carve_passage_2x2 show ?thesis
    unfolding n by simp
qed

section \<open>Construction\<close>

text \<open>
  Claim C6. The constructor raises exactly when \<open>rows < 2\<close>, \<open>cols < 2\<close>, or
  \<open>complexity\<close> or \<open>difficulty\<close> lies outside \<open>[0, 1]\<close>; a failure returns no
  object at all, and a success returns a \<open>rows \<times> cols\<close> grid in which every cell
  has its four walls, with the parameters stored as given.
\<close>

theorem init_validation:
  "(isl (init rws cls csz cx df) \<longleftrightarrow>
      rws < 2 \<or> cls < 2 \<or> cx < 0 \<or> 1 < cx \<or> df < 0 \<or> 1 < df) \<and>
   (\<forall>m. init rws cls csz cx df = Inr m \<longrightarrow>
      rows m = rws \<and> cols m = cls \<and> complexity m = cx \<and> difficulty m = df \<and>
      length (grid m) = nat rws \<and> (\<forall>row \<in> set (grid m). length row = nat cls) \<and>
      (\<forall>p d. in_bounds m p \<longrightarrow> wall m p d))"
  by (auto simp: init_def in_bounds_def wall_def not_le)

theorem init_validation_witness:
  "isl (init 1 5 20 (3/4) (3/4)) \<and> isl (init 5 5 20 (3/2) (3/4)) \<and>
   \<not> isl (init 2 2 20 0 1) \<and> wall (projr (init 2 2 20 0 1)) (1, 1) W"
proof -
  obtain m where m: "init 2 2 20 0 1 = Inr m"
    by (simp add: init_def)
  from init_validation [of 2 2 20 0 1] m have "\<forall>p d. in_bounds m p \<longrightarrow> wall m p d"
    by blast
  moreover have "in_bounds m (1, 1)"
    using m by (auto simp: init_def in_bounds_def)
  ultimately have "wall m (1, 1) W" by blast
  with m init_validation [of 1 5 20 "3/4" "3/4"] init_validation [of 5 5 20 "3/2" "3/4"]
    init_validation [of 2 2 20 0 1]
  show ?thesis by simp
qed

section \<open>Endpoints before generation\<close>

text \<open>
  Claim C7 says that reading \<open>start\<close> or \<open>end\<close> before \<open>generate()\<close> is an error
  and never a default value. The constructor stores \<open>None\<close> in both attributes and a
  read returns it: on a fresh 2 by 2 maze the read succeeds with \<open>None\<close>.
\<close>

theorem read_start_fresh_counterexample:
  "read_start (projr (init 2 2 20 (3/4) (3/4))) = Inr None"
  by (simp add: init_def read_start_def)

text \<open>
  Claim C7 as amended. On every freshly constructed maze, reading \<open>start\<close> and
  \<open>end\<close> succeeds and yields \<open>None\<close>, and \<open>draw\<close> then generates the maze first.
\<close>

theorem fresh_endpoints_none:
  "init rws cls csz cx df = Inr m \<Longrightarrow>
     read_start m = Inr None \<and> read_end m = Inr None \<and> draw m g = generate m g"
  by (auto simp: init_def read_start_def read_end_def draw_def split: if_splits)

theorem fresh_endpoints_none_witness:
  "\<exists>m. init 2 2 20 (3/4) (3/4) = Inr m \<and> read_start m = Inr None \<and> read_end m = Inr None
       \<and> draw m (\<lambda>_. 0) = generate m (\<lambda>_. 0)"
proof -
  obtain m where m: "init 2 2 20 (3/4) (3/4) = Inr m"
    by (simp add: init_def)
  from fresh_endpoints_none [OF m, of "\<lambda>_. 0"] m show ?thesis by blast
qed

section \<open>The shuffle in neighbour selection\<close>

text \<open>\<open>random.shuffle\<close> does permute the list it is given: on a two-element list
  a draw of 0 exchanges the elements.\<close>

lemma shuffle_can_swap: "fst (shuffle [a, b] (\<lambda>_. 0)) = [b, a]"
  by (simp add: shuffle_def randbelow_def rng_next_def numeral_2_eq_2)

text \<open>
  Claim C2 (evaluated at its failing input). On a 3 by 3 maze with complexity 1, the
  centre cell with nothing visited has four unvisited neighbours and the shuffle portion
  is the whole list, yet for every generator state the list returned is the construction
  order N, S, E, W: \<open>random.shuffle\<close> is applied to the slice \<open>neighbours[:k]\<close>,
  a copy that is thrown away.
\<close>

theorem unvisited_neighbours_unshuffled:
  "fst (unvisited_neighbours (projr (init 3 3 20 1 1)) 1 1
          (replicate 3 (replicate 3 False)) g)
   = [(0, 1, N, S), (2, 1, S, N), (1, 2, E, W), (1, 0, W, E)]"
  by (simp add: unvisited_neighbours_def init_def DIR_VEC_items_def Let_def
      split: prod.split)

section \<open>The breadth-first search\<close>

subsection \<open>One direction of one cell\<close>

lemma open_adj_move:
  "in_bounds m p \<Longrightarrow> in_bounds m (move p d) \<Longrightarrow> \<not> wall m p d \<Longrightarrow> open_adj m p (move p d)"
  by (auto simp: open_adj_def)

lemma border_closed_move:
  "border_closed m \<Longrightarrow> in_bounds m p \<Longrightarrow> \<not> wall m p d \<Longrightarrow> in_bounds m (move p d)"
  unfolding border_closed_def by blast

lemma bfs_visit_eq:
  assumes sg: "shape (rows m) (cols m) (grid m)" and bc: "border_closed m"
    and sd: "shape (rows m) (cols m) (dist_tab st)" and rc: "in_bounds m rc"
  shows "bfs_visit m rc d st =
           Inr (if wall m rc d then st
                else if nth2 (dist_tab st) (move rc d) = -1 then discover rc d st else st)"
proof (cases "wall m rc d")
  case True
  then show ?thesis
    by (simp add: bfs_visit_def get2_nth2 [OF sg rc] wall_nth2)
next
  case False
  from bc rc False have n: "in_bounds m (move rc d)" by (rule border_closed_move)
  have mv: "(fst rc + fst (DIR_VEC d), snd rc + snd (DIR_VEC d)) = move rc d"
    by (simp add: move_def)
  from False show ?thesis
    by (simp add: bfs_visit_def get2_nth2 [OF sg rc] wall_nth2 split_beta Let_def mv
        get2_nth2 [OF sd n] get2_nth2 [OF sd rc] set2_upd2 [OF sd n] discover_def)
qed

lemma discovered_discover:
  assumes sd: "shape (rows m) (cols m) (dist_tab st)" and n: "in_bounds m (move rc d)"
    and v: "nth2 (dist_tab st) rc \<noteq> -1" "0 \<le> nth2 (dist_tab st) rc"
  shows "discovered m (dist_tab (discover rc d st)) = insert (move rc d) (discovered m (dist_tab st))"
proof (rule set_eqI)
  fix x
  show "x \<in> discovered m (dist_tab (discover rc d st)) \<longleftrightarrow>
          x \<in> insert (move rc d) (discovered m (dist_tab st))"
    using n v
    by (cases "in_bounds m x") (auto simp: discovered_def discover_def nth2_upd2 [OF sd n])
qed

lemma discover_simps:
  "dist_tab (discover rc d st) = upd2 (dist_tab st) (move rc d) (nth2 (dist_tab st) rc + 1)"
  "q (discover rc d st) = q st @ [move rc d]"
  "farthest (discover rc d st) = farthest st"
  by (simp_all add: discover_def)

lemma discovered_cells: "p \<in> discovered m dt \<Longrightarrow> p \<in> cells m"
  by (simp add: discovered_def cells_def)

lemma bfs_new_distance:
  assumes t: "ltree (cells m) (open_adj m)" and core: "bfs_core m s st"
    and rc: "rc \<in> discovered m (dist_tab st)"
    and n: "n \<notin> discovered m (dist_tab st)" and a: "open_adj m rc n"
  shows "gdist (open_adj m) s n = Suc (gdist (open_adj m) s rc)"
proof -
  let ?D = "discovered m (dist_tab st)" and ?d = "gdist (open_adj m) s"
  from core have s: "s \<in> ?D"
    and par: "\<forall>p \<in> ?D. p \<noteq> s \<longrightarrow> (\<exists>u \<in> ?D. open_adj m u p \<and> ?d p = Suc (?d u))"
    by (simp_all add: bfs_core_def)
  from s have sV: "s \<in> cells m" by (rule discovered_cells)
  from ltree_adj_step [OF t sV a] show ?thesis
  proof
    assume bk: "?d rc = Suc (?d n)"
    then have "rc \<noteq> s" by auto
    with par rc obtain u where u: "u \<in> ?D" "open_adj m u rc" "?d rc = Suc (?d u)" by blast
    from u(2) have "open_adj m rc u" by (rule ltree_sym [OF t])
    from ltree_unique_parent [OF t sV this u(3) a bk] have "u = n" .
    with u(1) n show ?thesis by simp
  qed
qed

lemma bfs_core_discover:
  assumes tm: "tree_maze m" and core: "bfs_core m s st"
    and rc: "rc \<in> discovered m (dist_tab st)"
    and op: "\<not> wall m rc d" and new: "nth2 (dist_tab st) (move rc d) = -1"
  shows "bfs_core m s (discover rc d st)"
    and "discovered m (dist_tab (discover rc d st)) =
           insert (move rc d) (discovered m (dist_tab st))"
    and "move rc d \<in> cells m - discovered m (dist_tab st)"
proof -
  let ?D = "discovered m (dist_tab st)" and ?d = "gdist (open_adj m) s"
  let ?n = "move rc d" and ?st = "discover rc d st"
  from tm have bc: "border_closed m" and t: "ltree (cells m) (open_adj m)"
    by (simp_all add: tree_maze_def)
  from core have sd: "shape (rows m) (cols m) (dist_tab st)"
    and qD: "set (q st) \<subseteq> ?D" and fD: "farthest st \<in> ?D" and sD: "s \<in> ?D"
    and dist: "\<forall>p \<in> ?D. nth2 (dist_tab st) p = int (?d p)"
    and par: "\<forall>p \<in> ?D. p \<noteq> s \<longrightarrow> (\<exists>u \<in> ?D. open_adj m u p \<and> ?d p = Suc (?d u))"
    and far: "\<forall>p \<in> ?D. p \<notin> set (q st) \<longrightarrow> ?d p \<le> ?d (farthest st)"
    by (simp_all add: bfs_core_def)
  from rc have rcin: "in_bounds m rc" by (simp add: discovered_def)
  from bc rcin op have nin: "in_bounds m ?n" by (rule border_closed_move)
  from new have nD: "?n \<notin> ?D" by (simp add: discovered_def)
  from nin nD show nV: "?n \<in> cells m - ?D" by (simp add: cells_def)
  from rcin nin op have a: "open_adj m rc ?n" by (rule open_adj_move)
  from dist rc have drc: "nth2 (dist_tab st) rc = int (?d rc)" by blast
  then have v: "nth2 (dist_tab st) rc \<noteq> -1" "0 \<le> nth2 (dist_tab st) rc" by simp_all
  show D': "discovered m (dist_tab ?st) = insert ?n ?D"
    using sd nin v by (rule discovered_discover)
  have key: "?d ?n = Suc (?d rc)" using t core rc nD a by (rule bfs_new_distance)
  have val: "nth2 (dist_tab ?st) p = (if p = ?n then int (?d ?n) else nth2 (dist_tab st) p)"
    if "in_bounds m p" for p
    using that by (simp add: discover_simps nth2_upd2 [OF sd nin] drc key)
  have dist': "\<forall>p \<in> insert ?n ?D. nth2 (dist_tab ?st) p = int (?d p)"
  proof
    fix p assume p: "p \<in> insert ?n ?D"
    with nin have "in_bounds m p" by (auto simp: discovered_def)
    from val [OF this] p dist show "nth2 (dist_tab ?st) p = int (?d p)" by auto
  qed
  have par': "\<forall>p \<in> insert ?n ?D. p \<noteq> s \<longrightarrow>
      (\<exists>u \<in> insert ?n ?D. open_adj m u p \<and> ?d p = Suc (?d u))"
  proof (intro ballI impI)
    fix p assume p: "p \<in> insert ?n ?D" and ps: "p \<noteq> s"
    show "\<exists>u \<in> insert ?n ?D. open_adj m u p \<and> ?d p = Suc (?d u)"
    proof (cases "p = ?n")
      case True
      with a key rc show ?thesis by blast
    next
      case False
      with p par ps show ?thesis by blast
    qed
  qed
  have far': "\<forall>p \<in> insert ?n ?D. p \<notin> set (q st @ [?n]) \<longrightarrow> ?d p \<le> ?d (farthest st)"
    using far by auto
  show "bfs_core m s ?st"
    unfolding bfs_core_def D'
    using shape_upd2 [OF sd] qD fD sD dist' par' far'
    by (simp add: discover_simps subset_insertI2)
qed

lemma finite_undiscovered: "finite (cells m - D)"
  by (rule finite_Diff) (rule finite_cells)

lemma bfs_mid_visit:
  assumes tm: "tree_maze m" and mid: "bfs_mid m s rc (d # ds) st"
  shows "bfs_mid m s rc ds (visit_result m rc d st)"
    and "bfs_measure m (visit_result m rc d st) \<le> bfs_measure m st"
proof -
  let ?D = "discovered m (dist_tab st)"
  from mid have core: "bfs_core m s st" and rc: "rc \<in> ?D"
    and closed: "\<forall>p \<in> ?D. p \<notin> set (q st) \<longrightarrow> p \<noteq> rc \<longrightarrow>
        (\<forall>d. \<not> wall m p d \<longrightarrow> move p d \<in> ?D)"
    and hand: "\<forall>d'. d' \<notin> set (d # ds) \<longrightarrow> \<not> wall m rc d' \<longrightarrow> move rc d' \<in> ?D"
    by (simp_all add: bfs_mid_def)
  from tm have bc: "border_closed m" by (simp add: tree_maze_def)
  from rc have rcin: "in_bounds m rc" by (simp add: discovered_def)
  consider (w) "wall m rc d"
    | (old) "\<not> wall m rc d" "nth2 (dist_tab st) (move rc d) \<noteq> -1"
    | (new) "\<not> wall m rc d" "nth2 (dist_tab st) (move rc d) = -1"
    by blast
  then have "bfs_mid m s rc ds (visit_result m rc d st) \<and>
             bfs_measure m (visit_result m rc d st) \<le> bfs_measure m st"
  proof cases
    case w
    then have "visit_result m rc d st = st" by (simp add: visit_result_def)
    moreover from w hand have "\<forall>d'. d' \<notin> set ds \<longrightarrow> \<not> wall m rc d' \<longrightarrow> move rc d' \<in> ?D"
      by auto
    ultimately show ?thesis using core rc closed by (simp add: bfs_mid_def)
  next
    case old
    then have "visit_result m rc d st = st" by (simp add: visit_result_def)
    moreover from bc rcin old(1) have "in_bounds m (move rc d)" by (rule border_closed_move)
    with old(2) have "move rc d \<in> ?D" by (simp add: discovered_def)
    with hand have "\<forall>d'. d' \<notin> set ds \<longrightarrow> \<not> wall m rc d' \<longrightarrow> move rc d' \<in> ?D"
      by auto
    ultimately show ?thesis using core rc closed by (simp add: bfs_mid_def)
  next
    case new
    let ?st = "discover rc d st"
    from new have vr: "visit_result m rc d st = ?st" by (simp add: visit_result_def)
    note cd = bfs_core_discover [OF tm core rc new]
    have closed': "\<forall>p \<in> insert (move rc d) ?D. p \<notin> set (q st @ [move rc d]) \<longrightarrow> p \<noteq> rc \<longrightarrow>
        (\<forall>d'. \<not> wall m p d' \<longrightarrow> move p d' \<in> insert (move rc d) ?D)"
      using closed by auto
    have hand': "\<forall>d'. d' \<notin> set ds \<longrightarrow> \<not> wall m rc d' \<longrightarrow>
        move rc d' \<in> insert (move rc d) ?D"
      using hand by auto
    have mid': "bfs_mid m s rc ds ?st"
      unfolding bfs_mid_def cd(2) using cd(1) rc closed' hand'
      by (simp add: discover_simps)
    from cd(3) have "card (cells m - insert (move rc d) ?D) < card (cells m - ?D)"
      by (intro psubset_card_mono finite_undiscovered) auto
    then have "bfs_measure m ?st \<le> bfs_measure m st"
      unfolding bfs_measure_def cd(2) by (simp add: discover_simps)
    with mid' vr show ?thesis by simp
  qed
  then show "bfs_mid m s rc ds (visit_result m rc d st)"
    and "bfs_measure m (visit_result m rc d st) \<le> bfs_measure m st"
    by simp_all
qed

lemma bfs_mid_visit_eq:
  assumes tm: "tree_maze m" and mid: "bfs_mid m s rc ds st"
  shows "bfs_visit m rc d st = Inr (visit_result m rc d st)"
proof -
  from tm have sg: "shape (rows m) (cols m) (grid m)" and bc: "border_closed m"
    by (simp_all add: tree_maze_def)
  from mid have sd: "shape (rows m) (cols m) (dist_tab st)" and rc: "in_bounds m rc"
    by (simp_all add: bfs_mid_def bfs_core_def discovered_def)
  show ?thesis unfolding visit_result_def using sg bc sd rc by (rule bfs_visit_eq)
qed

lemma bfs_for_mid:
  assumes tm: "tree_maze m"
  shows "bfs_mid m s rc ds st \<Longrightarrow>
     \<exists>st'. bfs_for m rc ds st = Inr st' \<and> bfs_mid m s rc [] st' \<and>
           bfs_measure m st' \<le> bfs_measure m st"
proof (induction ds arbitrary: st)
  case Nil
  then show ?case by simp
next
  case (Cons d ds)
  note v = bfs_mid_visit [OF tm Cons.prems]
  from Cons.IH [OF v(1)] obtain st' where
    "bfs_for m rc ds (visit_result m rc d st) = Inr st'" "bfs_mid m s rc [] st'"
    "bfs_measure m st' \<le> bfs_measure m (visit_result m rc d st)"
    by blast
  with v(2) show ?case
    by (intro exI [of _ st']) (simp add: bfs_mid_visit_eq [OF tm Cons.prems])
qed

subsection \<open>One round of the search loop\<close>

lemma bfs_mid_start:
  assumes inv: "bfs_inv m s st" and ne: "q st \<noteq> []"
  shows "bfs_mid m s (hd (q st)) [N, S, E, W]
           (st\<lparr>q := tl (q st),
               farthest := (if nth2 (dist_tab st) (farthest st) < nth2 (dist_tab st) (hd (q st))
                            then hd (q st) else farthest st)\<rparr>)"
proof -
  let ?D = "discovered m (dist_tab st)" and ?d = "gdist (open_adj m) s"
  let ?rc = "hd (q st)"
  let ?far = "if nth2 (dist_tab st) (farthest st) < nth2 (dist_tab st) ?rc
              then ?rc else farthest st"
  from inv have core: "bfs_core m s st"
    and closed: "\<forall>p \<in> ?D. p \<notin> set (q st) \<longrightarrow> (\<forall>d. \<not> wall m p d \<longrightarrow> move p d \<in> ?D)"
    by (simp_all add: bfs_inv_def)
  from core have sd: "shape (rows m) (cols m) (dist_tab st)"
    and qD: "set (q st) \<subseteq> ?D" and fD: "farthest st \<in> ?D" and sD: "s \<in> ?D"
    and dist: "\<forall>p \<in> ?D. nth2 (dist_tab st) p = int (?d p)"
    and par: "\<forall>p \<in> ?D. p \<noteq> s \<longrightarrow> (\<exists>u \<in> ?D. open_adj m u p \<and> ?d p = Suc (?d u))"
    and far: "\<forall>p \<in> ?D. p \<notin> set (q st) \<longrightarrow> ?d p \<le> ?d (farthest st)"
    by (simp_all add: bfs_core_def)
  from ne qD have rc: "?rc \<in> ?D" using hd_in_set [OF ne] by blast
  from qD have tl: "set (tl (q st)) \<subseteq> ?D" using list.set_sel(2) [OF ne] by blast
  have fD': "?far \<in> ?D" using fD rc by simp
  from dist fD rc have cmp: "nth2 (dist_tab st) (farthest st) < nth2 (dist_tab st) ?rc
      \<longleftrightarrow> ?d (farthest st) < ?d ?rc"
    by simp
  have split: "p \<in> set (q st) \<Longrightarrow> p \<notin> set (tl (q st)) \<Longrightarrow> p = ?rc" for p
    using ne by (cases "q st") auto
  have far': "\<forall>p \<in> ?D. p \<notin> set (tl (q st)) \<longrightarrow> ?d p \<le> ?d ?far"
  proof (intro ballI impI)
    fix p assume p: "p \<in> ?D" "p \<notin> set (tl (q st))"
    show "?d p \<le> ?d ?far"
    proof (cases "p \<in> set (q st)")
      case True
      with p have "p = ?rc" by (intro split)
      then show ?thesis unfolding cmp by simp
    next
      case False
      with far p have "?d p \<le> ?d (farthest st)" by blast
      then show ?thesis unfolding cmp by simp
    qed
  qed
  have closed': "\<forall>p \<in> ?D. p \<notin> set (tl (q st)) \<longrightarrow> p \<noteq> ?rc \<longrightarrow>
        (\<forall>d. \<not> wall m p d \<longrightarrow> move p d \<in> ?D)"
    using closed split by blast
  have hand: "\<forall>d. d \<notin> set [N, S, E, W] \<longrightarrow> \<not> wall m ?rc d \<longrightarrow> move ?rc d \<in> ?D"
    by (simp add: dir_all)
  have "bfs_core m s (st\<lparr>q := tl (q st), farthest := ?far\<rparr>)"
    unfolding bfs_core_def using sd tl fD' sD dist par far' by simp
  with rc closed' hand show ?thesis
    unfolding bfs_mid_def by simp
qed

lemma bfs_step_inv:
  assumes tm: "tree_maze m" and inv: "bfs_inv m s st" and ne: "q st \<noteq> []"
  shows "\<exists>st'. bfs_step m st = Inr st' \<and> bfs_inv m s st' \<and>
           bfs_measure m st' < bfs_measure m st"
proof -
  let ?rc = "hd (q st)"
  let ?st1 = "st\<lparr>q := tl (q st),
               farthest := (if nth2 (dist_tab st) (farthest st) < nth2 (dist_tab st) ?rc
                            then ?rc else farthest st)\<rparr>"
  from inv have sd: "shape (rows m) (cols m) (dist_tab st)"
    and fin: "in_bounds m (farthest st)"
    and qin: "\<forall>p \<in> set (q st). in_bounds m p"
    by (auto simp: bfs_inv_def bfs_core_def discovered_def)
  from qin ne have rcin: "in_bounds m ?rc" by simp
  note mid = bfs_mid_start [OF inv ne]
  from bfs_for_mid [OF tm mid] obtain st' where
    f: "bfs_for m ?rc [N, S, E, W] ?st1 = Inr st'" and mid': "bfs_mid m s ?rc [] st'"
    and le: "bfs_measure m st' \<le> bfs_measure m ?st1"
    by blast
  have step: "bfs_step m st = Inr st'"
    using f by (simp add: bfs_step_def Let_def get2_nth2 [OF sd fin] get2_nth2 [OF sd rcin]
        DIR_VEC_items_def)
  from ne have "bfs_measure m ?st1 < bfs_measure m st"
    by (simp add: bfs_measure_def)
  with le have less: "bfs_measure m st' < bfs_measure m st" by simp
  from mid' have "bfs_inv m s st'"
    unfolding bfs_mid_def bfs_inv_def by (simp, blast)
  with step less show ?thesis by blast
qed

lemma bfs_start_inv:
  assumes s: "in_bounds m s"
  shows "\<exists>st0. bfs_start m s = Inr st0 \<and> bfs_inv m s st0"
proof -
  let ?d0 = "replicate (nat (rows m)) (replicate (nat (cols m)) (-1 :: int))"
  let ?st0 = "\<lparr>dist_tab = upd2 ?d0 s 0, q = [s], parent = Map.empty, farthest = s\<rparr>"
  have sd: "shape (rows m) (cols m) ?d0" by (rule shape_replicate)
  have st: "bfs_start m s = Inr ?st0" by (simp add: bfs_start_def set2_upd2 [OF sd s])
  have D: "discovered m (dist_tab ?st0) = {s}"
  proof (rule set_eqI)
    fix x show "x \<in> discovered m (dist_tab ?st0) \<longleftrightarrow> x \<in> {s}"
      using s by (cases "in_bounds m x")
        (auto simp: discovered_def nth2_upd2 [OF sd s] nth2_replicate)
  qed
  have val: "nth2 (upd2 ?d0 s 0) s = 0" using s by (simp add: nth2_upd2 [OF sd s])
  have "bfs_core m s ?st0"
    unfolding bfs_core_def D using shape_upd2 [OF sd] val by simp
  then have "bfs_inv m s ?st0" unfolding bfs_inv_def D by simp
  with st show ?thesis by blast
qed

lemma bfs_body_ok:
  assumes tm: "tree_maze m" and ok: "bfs_ok m s x" and c: "bfs_cond x"
  shows "bfs_ok m s (bfs_body m x) \<and> bfs_size m (bfs_body m x) < bfs_size m x"
proof -
  from ok c obtain st where x: "x = Inr st" and inv: "bfs_inv m s st" and ne: "q st \<noteq> []"
    by (cases x) (auto simp: bfs_ok_def bfs_cond_def)
  from bfs_step_inv [OF tm inv ne] show ?thesis
    by (auto simp: x bfs_body_def bfs_ok_def bfs_size_def)
qed

lemma bfs_loop_total:
  assumes tm: "tree_maze m" and inv: "bfs_inv m s st0"
  shows "\<exists>st. bfs_loop m st0 = Some (Inr st) \<and> bfs_inv m s st \<and> q st = []"
proof -
  have ok0: "bfs_ok m s (Inr st0)" using inv by (simp add: bfs_ok_def)
  from measure_while_option_Some [where P = "bfs_ok m s" and b = bfs_cond
      and c = "bfs_body m" and f = "bfs_size m", OF bfs_body_ok [OF tm] ok0]
  obtain t where t: "while_option bfs_cond (bfs_body m) (Inr st0) = Some t"
    by blast
  have "bfs_ok m s t"
    using bfs_body_ok [OF tm, THEN conjunct1] t ok0
    by (rule while_option_rule [where P = "bfs_ok m s"])
  moreover from t have "\<not> bfs_cond t" by (rule while_option_stop)
  ultimately obtain st where "t = Inr st" "bfs_inv m s st" "q st = []"
    by (cases t) (auto simp: bfs_ok_def bfs_cond_def)
  with t show ?thesis by (auto simp: bfs_loop_def)
qed

lemma bfs_inv_final:
  assumes tm: "tree_maze m" and inv: "bfs_inv m s st" and e: "q st = []"
  shows "discovered m (dist_tab st) = cells m"
proof
  let ?D = "discovered m (dist_tab st)"
  show "?D \<subseteq> cells m" by (auto dest: discovered_cells)
  from tm have t: "ltree (cells m) (open_adj m)" by (simp add: tree_maze_def)
  from inv e have sD: "s \<in> ?D"
    and closed: "\<forall>p \<in> ?D. \<forall>d. \<not> wall m p d \<longrightarrow> move p d \<in> ?D"
    by (simp_all add: bfs_inv_def bfs_core_def)
  have reach: "(open_adj m)\<^sup>*\<^sup>* s p \<Longrightarrow> p \<in> ?D" for p
  proof (induction rule: rtranclp_induct)
    case base
    from sD show ?case .
  next
    case (step y z)
    from step.hyps(2) obtain d where "z = move y d" "\<not> wall m y d"
      by (auto simp: open_adj_def)
    with closed step.IH show ?case by blast
  qed
  show "cells m \<subseteq> ?D"
  proof
    fix p assume "p \<in> cells m"
    with ltree_connected [OF t discovered_cells [OF sD]] show "p \<in> ?D"
      by (intro reach) blast
  qed
qed

lemma bfs_total:
  assumes tm: "tree_maze m" and s: "in_bounds m s"
  shows "\<exists>far dt pa. bfs m s = Some (Inr (far, dt, pa)) \<and> far \<in> cells m \<and>
           (\<forall>p \<in> cells m. gdist (open_adj m) s p \<le> gdist (open_adj m) s far)"
proof -
  from bfs_start_inv [OF s] obtain st0 where
    st0: "bfs_start m s = Inr st0" "bfs_inv m s st0" by blast
  from bfs_loop_total [OF tm st0(2)] obtain st where
    st: "bfs_loop m st0 = Some (Inr st)" "bfs_inv m s st" "q st = []" by blast
  note D = bfs_inv_final [OF tm st(2,3)]
  from st(2,3) have "farthest st \<in> cells m"
    and "\<forall>p \<in> cells m. gdist (open_adj m) s p \<le> gdist (open_adj m) s (farthest st)"
    unfolding bfs_inv_def bfs_core_def D by simp_all
  moreover from st0(1) st(1)
  have "bfs m s = Some (Inr (farthest st, dist_tab st, parent st))"
    by (simp add: bfs_def)
  ultimately show ?thesis by blast
qed

lemma longest_path_endpoints_diameter:
  assumes tm: "tree_maze m" and o: "in_bounds m (0, 0)"
  shows "\<exists>a b. longest_path_endpoints m = Some (Inr (a, b)) \<and> a \<in> cells m \<and> b \<in> cells m \<and>
           (\<forall>p \<in> cells m. gdist (open_adj m) (0, 0) p \<le> gdist (open_adj m) (0, 0) a) \<and>
           (\<forall>p \<in> cells m. gdist (open_adj m) a p \<le> gdist (open_adj m) a b) \<and>
           (\<forall>x \<in> cells m. \<forall>y \<in> cells m.
              gdist (open_adj m) x y \<le> gdist (open_adj m) a b)"
proof -
  from tm have t: "ltree (cells m) (open_adj m)" by (simp add: tree_maze_def)
  from bfs_total [OF tm o] obtain a da pa where
    a: "bfs m (0, 0) = Some (Inr (a, da, pa))" "a \<in> cells m"
      "\<forall>p \<in> cells m. gdist (open_adj m) (0, 0) p \<le> gdist (open_adj m) (0, 0) a"
    by blast
  from a(2) have "in_bounds m a" by (simp add: cells_def)
  from bfs_total [OF tm this] obtain b db pb where
    b: "bfs m a = Some (Inr (b, db, pb))" "b \<in> cells m"
      "\<forall>p \<in> cells m. gdist (open_adj m) a p \<le> gdist (open_adj m) a b"
    by blast
  from o have oV: "(0, 0) \<in> cells m" by (simp add: cells_def)
  have "\<forall>x \<in> cells m. \<forall>y \<in> cells m. gdist (open_adj m) x y \<le> gdist (open_adj m) a b"
    using ltree_double_sweep [OF t oV a(2) b(2) a(3) b(3)] by blast
  moreover from a(1) b(1) have "longest_path_endpoints m = Some (Inr (a, b))"
    by (simp add: longest_path_endpoints_def)
  ultimately show ?thesis using a(2,3) b(2,3) by blast
qed

lemma bfs_reach_inv:
  assumes tm: "tree_maze m"
  shows "bfs_reach m st0 st \<Longrightarrow> bfs_inv m s st0 \<Longrightarrow> bfs_inv m s st"
proof (induction rule: bfs_reach.induct)
  case bfs_reach_start
  then show ?case .
next
  case (bfs_reach_step st st')
  from bfs_reach_step.IH [OF bfs_reach_step.prems] have "bfs_inv m s st" .
  from bfs_step_inv [OF tm this bfs_reach_step.hyps(2)] bfs_reach_step.hyps(3)
  show ?case by simp
qed

lemma carved_tree_maze:
  assumes f: "fresh m0" and s: "in_bounds m0 (sr, sc)"
    and c: "carve_passage m0 sr sc g = Some (Inr (m, g'))"
  shows "tree_maze m" and "same_params m m0"
proof -
  from carved_maze [OF f s c] have sp: "same_params m m0"
    and rest: "shape (rows m0) (cols m0) (grid m)" "border_closed m"
      "ltree (cells m0) (open_adj m)"
    by simp_all
  from sp have "rows m = rows m0" "cols m = cols m0" by (simp_all add: same_params_def)
  moreover from this have "cells m = cells m0" by (simp add: cells_eq)
  ultimately show "tree_maze m" using rest by (simp add: tree_maze_def)
  from sp show "same_params m m0" .
qed

subsection \<open>A connected graph without cycles is grown leaf by leaf\<close>

lemma spath_snoc:
  assumes p: "spath adj p" and w: "w \<notin> set p" and a: "adj (last p) w"
  shows "spath adj (p @ [w])"
proof -
  from p have ne: "p \<noteq> []" and d: "distinct p"
    and e: "\<And>i. Suc i < length p \<Longrightarrow> adj (p ! i) (p ! Suc i)"
    by (simp_all add: spath_def)
  have "adj ((p @ [w]) ! i) ((p @ [w]) ! Suc i)" if i: "Suc i < length (p @ [w])" for i
  proof (cases "Suc i < length p")
    case True
    then show ?thesis using e [OF True] by (simp add: nth_append)
  next
    case False
    with i have il: "Suc i = length p" by simp
    then have "i = length p - 1" by simp
    then have "p ! i = last p" using ne by (simp add: last_conv_nth)
    with il a show ?thesis by (simp add: nth_append)
  qed
  with d w show ?thesis by (simp add: spath_def)
qed

lemma spath_back_edge_cycle:
  assumes p: "spath adj p" and j: "j + 3 \<le> length p" and a: "adj (last p) (p ! j)"
  shows "cycle adj (drop j p)"
proof -
  from p have ne: "p \<noteq> []" and d: "distinct p"
    and e: "\<And>i. Suc i < length p \<Longrightarrow> adj (p ! i) (p ! Suc i)"
    by (simp_all add: spath_def)
  let ?c = "drop j p"
  have len: "length ?c = length p - j" by simp
  have "adj (?c ! i) (?c ! (Suc i mod length ?c))" if i: "i < length ?c" for i
  proof (cases "Suc i < length ?c")
    case True
    then have "Suc (j + i) < length p" by simp
    from e [OF this] True show ?thesis by simp
  next
    case False
    with i have il: "Suc i = length ?c" by simp
    then have "j + i = length p - 1" by simp
    then have "?c ! i = last p" using ne i by (simp add: last_conv_nth)
    moreover have "?c ! 0 = p ! j" using j by simp
    ultimately show ?thesis using a il by simp
  qed
  with j d show ?thesis by (simp add: cycle_def)
qed

text \<open>A finite connected graph without cycles on two or more vertices has a vertex
  with one neighbour only: the last vertex of a longest simple path.\<close>

lemma tree_has_leaf:
  assumes fin: "finite V"
    and dom: "\<forall>x y. adj x y \<longrightarrow> x \<in> V \<and> y \<in> V"
    and sym: "\<forall>x y. adj x y \<longrightarrow> adj y x"
    and irr: "\<forall>x. \<not> adj x x"
    and con: "connected_on V adj"
    and acy: "\<forall>p. \<not> cycle adj p"
    and two: "x \<in> V" "y \<in> V" "x \<noteq> y"
  shows "\<exists>v u. adj v u \<and> (\<forall>w. adj v w \<longrightarrow> w = u)"
proof -
  define P where "P p \<longleftrightarrow> spath adj p \<and> set p \<subseteq> V \<and> 2 \<le> length p" for p
  from con two have "adj\<^sup>*\<^sup>* x y" by (simp add: connected_on_def)
  with two(3) obtain z where xz: "adj x z" by (auto elim: converse_rtranclpE)
  with irr have "z \<noteq> x" by auto
  moreover from xz dom have "z \<in> V" by blast
  ultimately have P0: "P [x, z]"
    using xz two(1) by (simp add: P_def spath_def)
  have bound: "\<forall>p. P p \<longrightarrow> length p < Suc (card V)"
  proof (intro allI impI)
    fix p assume "P p"
    then have "distinct p" "set p \<subseteq> V" by (simp_all add: P_def spath_def)
    then have "length p = card (set p)" and "card (set p) \<le> card V"
      using card_mono [OF fin, of "set p"] by (simp_all only: distinct_card)
    then show "length p < Suc (card V)" by simp
  qed
  from ex_has_greatest_nat [of P "[x, z]" length, OF P0 bound]
  obtain p where Pp: "P p" and mx: "\<forall>q. P q \<longrightarrow> length q \<le> length p" by blast
  from Pp have sp: "spath adj p" and sub: "set p \<subseteq> V" and l2: "2 \<le> length p"
    by (simp_all add: P_def)
  from sp have ne: "p \<noteq> []" and d: "distinct p"
    and e: "\<And>i. Suc i < length p \<Longrightarrow> adj (p ! i) (p ! Suc i)"
    by (simp_all add: spath_def)
  define v where "v = last p"
  define u where "u = p ! (length p - 2)"
  from l2 have "Suc (length p - 2) < length p" by simp
  from e [OF this] l2 have "adj u (p ! (length p - 1))"
    by (simp add: u_def Suc_diff_Suc numeral_2_eq_2)
  with ne have uv: "adj u v" by (simp add: v_def last_conv_nth)
  with sym have vu: "adj v u" by blast
  have "w = u" if vw: "adj v w" for w
  proof (rule ccontr)
    assume wu: "w \<noteq> u"
    from vw irr have wv: "w \<noteq> v" by auto
    from vw dom have wV: "w \<in> V" by blast
    show False
    proof (cases "w \<in> set p")
      case False
      from spath_snoc [OF sp False] vw have "spath adj (p @ [w])" by (simp add: v_def)
      with sub wV l2 have "P (p @ [w])" by (simp add: P_def)
      with mx have "length (p @ [w]) \<le> length p" by blast
      then show False by simp
    next
      case True
      then obtain j where j: "j < length p" "p ! j = w" by (auto simp: in_set_conv_nth)
      have "j \<noteq> length p - 1" using j(2) wv ne by (auto simp: v_def last_conv_nth)
      moreover have "j \<noteq> length p - 2" using j(2) wu by (auto simp: u_def)
      ultimately have "j + 3 \<le> length p" using j(1) by arith
      from spath_back_edge_cycle [OF sp this] vw j(2) have "cycle adj (drop j p)"
        by (simp add: v_def)
      with acy show False by blast
    qed
  qed
  with vu show ?thesis by blast
qed

lemma cycle_mono: "cycle adj p \<Longrightarrow> (\<And>x y. adj x y \<Longrightarrow> adj' x y) \<Longrightarrow> cycle adj' p"
  by (simp add: cycle_def)

lemma connected_acyclic_ltree:
  assumes "finite V" and "V \<noteq> {}"
    and "\<forall>x y. adj x y \<longrightarrow> x \<in> V \<and> y \<in> V"
    and "\<forall>x y. adj x y \<longrightarrow> adj y x"
    and "\<forall>x. \<not> adj x x"
    and "connected_on V adj"
    and "\<forall>p. \<not> cycle adj p"
  shows "ltree V adj"
  using assms
proof (induction "card V" arbitrary: V adj)
  case 0
  then show ?case by simp
next
  case (Suc n)
  note fin = Suc.prems(1) and dom = Suc.prems(3) and sym = Suc.prems(4)
    and irr = Suc.prems(5) and con = Suc.prems(6) and acy = Suc.prems(7)
  show ?case
  proof (cases "\<exists>x\<in>V. \<exists>y\<in>V. x \<noteq> y")
    case False
    from Suc.prems(2) obtain r where "r \<in> V" by blast
    with False have V: "V = {r}" by blast
    have "\<forall>x y. \<not> adj x y"
    proof (intro allI notI)
      fix x y assume a: "adj x y"
      with dom V have "x = r" "y = r" by auto
      with a irr show False by blast
    qed
    then have "ltree {r} adj" by (rule ltree_single)
    with V show ?thesis by simp
  next
    case True
    then obtain x y where xy: "x \<in> V" "y \<in> V" "x \<noteq> y" by blast
    from tree_has_leaf [OF fin dom sym irr con acy xy]
    obtain v u where vu: "adj v u" and only: "\<forall>w. adj v w \<longrightarrow> w = u" by blast
    from vu sym have uv: "adj u v" by blast
    from vu dom have vV: "v \<in> V" and uV: "u \<in> V" by blast+
    from vu irr have neq: "u \<noteq> v" by auto
    define V' where "V' = V - {v}"
    define adj' where "adj' a b \<longleftrightarrow> adj a b \<and> a \<noteq> v \<and> b \<noteq> v" for a b
    have u': "u \<in> V'" and v': "v \<notin> V'" using uV neq by (simp_all add: V'_def)
    have ins: "insert v V' = V" using vV by (auto simp: V'_def)
    have grow: "\<forall>a b. adj a b \<longleftrightarrow> adj' a b \<or> (a = u \<and> b = v) \<or> (a = v \<and> b = u)"
    proof (intro allI iffI)
      fix a b assume ab: "adj a b"
      show "adj' a b \<or> (a = u \<and> b = v) \<or> (a = v \<and> b = u)"
      proof (cases "a = v")
        case True
        with ab only show ?thesis by blast
      next
        case av: False
        show ?thesis
        proof (cases "b = v")
          case True
          with ab sym have "adj v a" by blast
          with only True show ?thesis by blast
        next
          case False
          with av ab show ?thesis by (simp add: adj'_def)
        qed
      qed
    next
      fix a b assume "adj' a b \<or> (a = u \<and> b = v) \<or> (a = v \<and> b = u)"
      with uv vu show "adj a b" by (auto simp: adj'_def)
    qed
    have dom': "\<forall>a b. adj' a b \<longrightarrow> a \<in> V' \<and> b \<in> V'"
      using dom by (auto simp: adj'_def V'_def)
    have con': "connected_on V' adj'"
      unfolding connected_on_def
    proof (intro ballI)
      fix a b assume a: "a \<in> V'" and b: "b \<in> V'"
      then have "a \<in> V" "b \<in> V" by (simp_all add: V'_def)
      with con have "adj\<^sup>*\<^sup>* a b" by (simp add: connected_on_def)
      then obtain k where "(adj ^^ k) a b" by (auto simp: rtranclp_power)
      from leaf_walk_shorten [where adj = adj' and adj' = adj and V = V' and u = u and v = v,
          OF _ v' grow this a b] dom'
      obtain k' where "(adj' ^^ k') a b" by blast
      then show "adj'\<^sup>*\<^sup>* a b" by (auto simp: rtranclp_power)
    qed
    have "ltree V' adj'"
    proof (rule Suc.hyps(1))
      from Suc.hyps(2) fin vV show "n = card V'" by (simp add: V'_def)
      from fin show "finite V'" by (simp add: V'_def)
      from u' show "V' \<noteq> {}" by blast
      from dom' show "\<forall>a b. adj' a b \<longrightarrow> a \<in> V' \<and> b \<in> V'" .
      from sym show "\<forall>a b. adj' a b \<longrightarrow> adj' b a" by (auto simp: adj'_def)
      from irr show "\<forall>a. \<not> adj' a a" by (simp add: adj'_def)
      from con' show "connected_on V' adj'" .
      show "\<forall>p. \<not> cycle adj' p"
      proof (intro allI notI)
        fix p assume "cycle adj' p"
        then have "cycle adj p" by (rule cycle_mono) (simp add: adj'_def)
        with acy show False by blast
      qed
    qed
    from ltree_leaf [OF this u' v' grow] ins show ?thesis by simp
  qed
qed

subsection \<open>The open-wall graph of a maze with paired walls\<close>

lemma open_adj_sym:
  assumes ws: "wall_symmetric m" and a: "open_adj m u v"
  shows "open_adj m v u"
proof -
  from a obtain d where u: "in_bounds m u" and v: "in_bounds m v"
    and vd: "v = move u d" and w: "\<not> wall m u d"
    by (auto simp: open_adj_def)
  from ws u v vd have "wall m u d = wall m (move u d) (OPPOSITE d)"
    unfolding wall_symmetric_def by blast
  with w vd have "\<not> wall m v (OPPOSITE d)" by simp
  moreover from vd have "u = move v (OPPOSITE d)" by (simp add: move_opposite)
  ultimately show ?thesis using u v unfolding open_adj_def by blast
qed

lemma open_adj_irrefl: "\<not> open_adj m u u"
  unfolding open_adj_def by (metis move_neq)

text \<open>A grid whose walls are paired, whose border is closed and whose open walls join
  all cells without a cycle is a tree in the sense the search is proved for.\<close>

lemma spanning_tree_maze:
  assumes sh: "shape (rows m) (cols m) (grid m)" and o: "in_bounds m (0, 0)"
    and bc: "border_closed m" and ws: "wall_symmetric m"
    and con: "connected_on (cells m) (open_adj m)"
    and acy: "\<forall>p. \<not> cycle (open_adj m) p"
  shows "tree_maze m"
proof -
  have "finite (cells m)" by (simp add: cells_eq)
  moreover from o have "cells m \<noteq> {}" by (auto simp: cells_def)
  moreover have "\<forall>x y. open_adj m x y \<longrightarrow> x \<in> cells m \<and> y \<in> cells m"
    by (simp add: open_adj_def cells_def)
  moreover have "\<forall>x y. open_adj m x y \<longrightarrow> open_adj m y x"
    using open_adj_sym [OF ws] by blast
  moreover have "\<forall>x. \<not> open_adj m x x" by (simp add: open_adj_irrefl)
  ultimately have "ltree (cells m) (open_adj m)"
    using con acy by (rule connected_acyclic_ltree)
  with sh bc show ?thesis by (simp add: tree_maze_def)
qed

text \<open>Every maze carved from a freshly constructed one is such a grid.\<close>

lemma carved_spanning_tree:
  assumes f: "fresh m0" and s: "in_bounds m0 (sr, sc)"
    and c: "carve_passage m0 sr sc g = Some (Inr (m, g'))"
  shows "shape (rows m) (cols m) (grid m)" and "in_bounds m (0, 0)"
    and "wall_symmetric m" and "border_closed m"
    and "connected_on (cells m) (open_adj m)" and "\<forall>p. \<not> cycle (open_adj m) p"
proof -
  from carved_maze [OF f s c] have sp: "same_params m m0"
    and sh: "shape (rows m0) (cols m0) (grid m)" and ws: "wall_symmetric m"
    and bc: "border_closed m" and t: "ltree (cells m0) (open_adj m)"
    by simp_all
  from sp have d: "rows m = rows m0" "cols m = cols m0" by (simp_all add: same_params_def)
  then have ce: "cells m = cells m0" by (simp add: cells_eq)
  from sh d show "shape (rows m) (cols m) (grid m)" by simp
  from f d show "in_bounds m (0, 0)" by (simp add: fresh_def in_bounds_def)
  from ws show "wall_symmetric m" .
  from bc show "border_closed m" .
  from t ce show "connected_on (cells m) (open_adj m)"
    unfolding connected_on_def by (simp add: ltree_connected)
  from t show "\<forall>p. \<not> cycle (open_adj m) p" by (simp add: ltree_acyclic)
qed

section \<open>The search on the carved 2 by 2 maze\<close>

lemmas bfs_eval =
  bfs_def bfs_start_def bfs_loop_def bfs_cond_def bfs_body_def bfs_step_def bfs_visit_def
  DIR_VEC_items_def get2_def set2_def py_index_def Let_def carved_2x2_def maze_2x2_def

text \<open>From \<open>(0, 0)\<close> the farthest cell is \<open>(0, 1)\<close>, three steps away; from there
  it is \<open>(0, 0)\<close>.\<close>

lemma bfs_2x2:
  "map_option (map_sum id (\<lambda>(f, dt, pa). (f, dt))) (bfs carved_2x2 (0, 0)) =
     Some (Inr ((0, 1), [[0, 3], [1, 2]]))"
  "map_option (map_sum id (\<lambda>(f, dt, pa). (f, dt))) (bfs carved_2x2 (0, 1)) =
     Some (Inr ((0, 0), [[3, 0], [2, 1]]))"
  by (simp_all add: while_option_unfold bfs_eval numeral_2_eq_2)

lemma longest_path_endpoints_2x2:
  "longest_path_endpoints carved_2x2 = Some (Inr ((0, 1), (0, 0)))"
  using bfs_2x2
  by (auto simp: longest_path_endpoints_def split: option.splits sum.splits)

lemma carved_2x2_fields:
  "rows carved_2x2 = 2" "cols carved_2x2 = 2" "difficulty carved_2x2 = 1/2"
  by (simp_all add: carved_2x2_def maze_2x2_fields)

lemma generate_2x2:
  "generate maze_2x2 zero_rng =
     Some (Inr (carved_2x2\<lparr>start := Some (0, 1), end_pos := Some (0, 0)\<rparr>, zero_rng))"
proof -
  have "randrange 2 zero_rng = Inr (0, zero_rng)"
    by (simp add: randrange_def randbelow_def rng_next_def zero_rng_def)
  then show ?thesis
    by (simp add: generate_def maze_2x2_fields carve_passage_2x2 longest_path_endpoints_2x2
        carved_2x2_fields)
qed

section \<open>The diameter search on a carved maze\<close>

text \<open>
  Claim C4. Take a maze whose grid has \<open>rows \<times> cols\<close> cells, whose walls are
  paired and whose border walls are present, and whose open-wall graph is a spanning
  tree: open walls join every two cells, and no cycle runs through open walls. On it
  \<open>_longest_path_endpoints\<close> returns a pair \<open>(a, b)\<close> of cells, \<open>a\<close> a cell
  farthest from \<open>(0, 0)\<close> and \<open>b\<close> a cell farthest from \<open>a\<close>, and no two cells
  are farther apart than \<open>a\<close> and \<open>b\<close>; the distance is the length of a shortest
  walk through open walls. Every maze that \<open>_carve_passage\<close> makes from a freshly
  constructed one is such a maze (\<open>carved_spanning_tree\<close>).
\<close>

theorem longest_path_is_diameter:
  assumes "shape (rows m) (cols m) (grid m)" and "in_bounds m (0, 0)"
    and "wall_symmetric m" and "border_closed m"
    and "connected_on (cells m) (open_adj m)" and "\<forall>p. \<not> cycle (open_adj m) p"
  shows "\<exists>a b. longest_path_endpoints m = Some (Inr (a, b)) \<and>
           in_bounds m a \<and> in_bounds m b \<and>
           (\<forall>p. in_bounds m p \<longrightarrow>
              gdist (open_adj m) (0, 0) p \<le> gdist (open_adj m) (0, 0) a) \<and>
           (\<forall>p. in_bounds m p \<longrightarrow> gdist (open_adj m) a p \<le> gdist (open_adj m) a b) \<and>
           (\<forall>x y. in_bounds m x \<and> in_bounds m y \<longrightarrow>
              gdist (open_adj m) x y \<le> gdist (open_adj m) a b)"
proof -
  note tm = spanning_tree_maze [OF assms(1,2,4,3,5,6)]
  from longest_path_endpoints_diameter [OF tm assms(2)] show ?thesis
    unfolding cells_def mem_Collect_eq by blast
qed

theorem longest_path_is_diameter_witness:
  "shape (rows carved_2x2) (cols carved_2x2) (grid carved_2x2) \<and>
   in_bounds carved_2x2 (0, 0) \<and> wall_symmetric carved_2x2 \<and> border_closed carved_2x2 \<and>
   connected_on (cells carved_2x2) (open_adj carved_2x2) \<and>
   (\<forall>p. \<not> cycle (open_adj carved_2x2) p) \<and>
   longest_path_endpoints carved_2x2 = Some (Inr ((0, 1), (0, 0))) \<and>
   in_bounds carved_2x2 (1, 0) \<and> in_bounds carved_2x2 (1, 1) \<and>
   gdist (open_adj carved_2x2) (1, 0) (1, 1) \<le> gdist (open_adj carved_2x2) (0, 1) (0, 0)"
proof -
  note h = carved_spanning_tree [OF init_fresh [OF init_2x2] in_bounds_2x2 carve_passage_2x2]
  have b: "in_bounds carved_2x2 (1, 0)" "in_bounds carved_2x2 (1, 1)"
    by (simp_all add: in_bounds_def carved_2x2_fields)
  from longest_path_is_diameter [OF h] b
  have "gdist (open_adj carved_2x2) (1, 0) (1, 1) \<le> gdist (open_adj carved_2x2) (0, 1) (0, 0)"
    by (simp add: longest_path_endpoints_2x2)
  with h longest_path_endpoints_2x2 b show ?thesis by simp
qed

text \<open>
  Claim C10. In every maze carved from a freshly constructed one, the N walls of row 0,
  the S walls of the last row, the W walls of column 0 and the E walls of the last
  column are present. In every state that the loop of \<open>bfs\<close> reaches from an in-bounds
  source, \<open>farthest\<close> and every queued cell are in bounds, and so is the neighbour
  of a queued cell across each of its open walls: these are the cells whose entries of
  \<open>grid\<close> and \<open>dist\<close> one round reads and writes. \<open>_longest_path_endpoints\<close>
  returns without an \<open>IndexError\<close>, and its two sources \<open>(0, 0)\<close> and the first
  endpoint are in bounds.
\<close>

theorem border_walls_kept:
  assumes "init rws cls csz cx df = Inr m0" and "in_bounds m0 (start_r, start_c)"
    and "carve_passage m0 start_r start_c g = Some (Inr (m, g'))"
  shows "(\<forall>c. 0 \<le> c \<and> c < cols m \<longrightarrow> wall m (0, c) N \<and> wall m (rows m - 1, c) S) \<and>
         (\<forall>r. 0 \<le> r \<and> r < rows m \<longrightarrow> wall m (r, 0) W \<and> wall m (r, cols m - 1) E) \<and>
         (\<forall>s st0 st. in_bounds m s \<and> bfs_start m s = Inr st0 \<and> bfs_reach m st0 st \<longrightarrow>
            in_bounds m (farthest st) \<and>
            (\<forall>rc \<in> set (q st). in_bounds m rc \<and>
               (\<forall>d. \<not> wall m rc d \<longrightarrow> in_bounds m (move rc d)))) \<and>
         in_bounds m (0, 0) \<and>
         (\<exists>a b. longest_path_endpoints m = Some (Inr (a, b)) \<and> in_bounds m a)"
proof -
  note f = init_fresh [OF assms(1)]
  note tm = carved_tree_maze [OF f assms(2,3)]
  from tm(1) have bc: "border_closed m" by (simp add: tree_maze_def)
  from f tm(2) have dims: "2 \<le> rows m" "2 \<le> cols m"
    by (simp_all add: fresh_def same_params_def)
  then have o: "in_bounds m (0, 0)" by (simp add: in_bounds_def)
  have 1: "wall m (0, c) N \<and> wall m (rows m - 1, c) S" if "0 \<le> c \<and> c < cols m" for c
  proof
    from that dims have "in_bounds m (0, c)" "\<not> in_bounds m (move (0, c) N)"
      by (simp_all add: in_bounds_def move_def)
    with bc show "wall m (0, c) N" unfolding border_closed_def by blast
    from that dims have "in_bounds m (rows m - 1, c)" "\<not> in_bounds m (move (rows m - 1, c) S)"
      by (simp_all add: in_bounds_def move_def)
    with bc show "wall m (rows m - 1, c) S" unfolding border_closed_def by blast
  qed
  have 2: "wall m (r, 0) W \<and> wall m (r, cols m - 1) E" if "0 \<le> r \<and> r < rows m" for r
  proof
    from that dims have "in_bounds m (r, 0)" "\<not> in_bounds m (move (r, 0) W)"
      by (simp_all add: in_bounds_def move_def)
    with bc show "wall m (r, 0) W" unfolding border_closed_def by blast
    from that dims have "in_bounds m (r, cols m - 1)" "\<not> in_bounds m (move (r, cols m - 1) E)"
      by (simp_all add: in_bounds_def move_def)
    with bc show "wall m (r, cols m - 1) E" unfolding border_closed_def by blast
  qed
  have 3: "in_bounds m (farthest st) \<and>
            (\<forall>rc \<in> set (q st). in_bounds m rc \<and>
               (\<forall>d. \<not> wall m rc d \<longrightarrow> in_bounds m (move rc d)))"
    if "in_bounds m s \<and> bfs_start m s = Inr st0 \<and> bfs_reach m st0 st" for s st0 st
  proof -
    from that bfs_start_inv [of m s] have "bfs_inv m s st0" by auto
    with that have "bfs_inv m s st" by (blast intro: bfs_reach_inv [OF tm(1)])
    then have "in_bounds m (farthest st)" and "\<forall>rc \<in> set (q st). in_bounds m rc"
      by (auto simp: bfs_inv_def bfs_core_def discovered_def)
    with bc show ?thesis by (blast intro: border_closed_move)
  qed
  from longest_path_endpoints_diameter [OF tm(1) o]
  have 4: "\<exists>a b. longest_path_endpoints m = Some (Inr (a, b)) \<and> in_bounds m a"
    unfolding cells_def mem_Collect_eq by blast
  from 1 2 3 o 4 show ?thesis by blast
qed

theorem border_walls_kept_witness:
  "init 2 2 20 (1/2) (1/2) = Inr maze_2x2 \<and> in_bounds maze_2x2 (0, 0) \<and>
   carve_passage maze_2x2 0 0 zero_rng = Some (Inr (carved_2x2, zero_rng)) \<and>
   wall carved_2x2 (0, 1) N \<and> wall carved_2x2 (1, 1) S \<and>
   wall carved_2x2 (1, 0) W \<and> wall carved_2x2 (1, 1) E \<and>
   bfs_start carved_2x2 (0, 0) =
     Inr \<lparr>dist_tab = [[0, -1], [-1, -1]], q = [(0, 0)], parent = Map.empty,
          farthest = (0, 0)\<rparr> \<and>
   \<not> wall carved_2x2 (0, 0) S \<and> in_bounds carved_2x2 (move (0, 0) S)"
proof -
  let ?st0 = "\<lparr>dist_tab = [[0, -1], [-1, -1]], q = [(0, 0)], parent = Map.empty,
                farthest = (0, 0)\<rparr>"
  note dims = carved_2x2_fields(1,2)
  then have o: "in_bounds carved_2x2 (0, 0)" by (simp add: in_bounds_def)
  have s: "bfs_start carved_2x2 (0, 0) = Inr ?st0"
    by (simp add: bfs_start_def dims set2_def py_index_def numeral_2_eq_2)
  have r: "bfs_reach carved_2x2 ?st0 ?st0" by (rule bfs_reach_start)
  note k = border_walls_kept [OF init_2x2 in_bounds_2x2 carve_passage_2x2]
  from k dims have "wall carved_2x2 (0, 1) N \<and> wall carved_2x2 (1, 1) S" by simp
  moreover from k dims have "wall carved_2x2 (1, 0) W \<and> wall carved_2x2 (1, 1) E" by simp
  moreover from k o s r
  have "\<forall>d. \<not> wall carved_2x2 (0, 0) d \<longrightarrow> in_bounds carved_2x2 (move (0, 0) d)"
    by (elim conjE allE [of _ "(0, 0)"] allE [of _ ?st0]) simp
  moreover have "\<not> wall carved_2x2 (0, 0) S"
    by (simp add: wall_def carved_2x2_def)
  ultimately show ?thesis using init_2x2 in_bounds_2x2 carve_passage_2x2 s by simp
qed

section \<open>generate\<close>

lemma randrange_in_range:
  assumes "0 < n"
  shows "\<exists>x g'. randrange n g = Inr (x, g') \<and> 0 \<le> x \<and> x < n"
proof -
  from assms have "g 0 mod nat n < nat n" by simp
  then have "int (g 0 mod nat n) < int (nat n)" by (simp only: of_nat_less_iff)
  with assms have "int (g 0 mod nat n) < n" by simp
  with assms show ?thesis
    by (simp add: randrange_def randbelow_def rng_next_def)
qed

lemma generate_result:
  assumes f: "fresh m0"
  shows "\<exists>start_r start_c g2 mc g3.
           in_bounds m0 (start_r, start_c) \<and>
           carve_passage m0 start_r start_c g2 = Some (Inr (mc, g3)) \<and>
           generate m0 g =
             (if difficulty mc < 1 / 10 then
                Some (Inr (mc\<lparr>start := Some (0, 0), end_pos := Some (1, 1)\<rparr>, g3))
              else if difficulty mc < 1 / 2 then
                Some (Inr (mc\<lparr>start := Some (0, 0),
                              end_pos := Some (rows mc - 1, cols mc - 1)\<rparr>, g3))
              else
                (case longest_path_endpoints mc of
                   None \<Rightarrow> None
                 | Some (Inl e) \<Rightarrow> Some (Inl e)
                 | Some (Inr (a, b)) \<Rightarrow>
                     Some (Inr (mc\<lparr>start := Some a, end_pos := Some b\<rparr>, g3))))"
proof -
  from f have dims: "0 < rows m0" "0 < cols m0" by (simp_all add: fresh_def)
  from randrange_in_range [OF dims(1), of g] obtain sr g1 where
    r: "randrange (rows m0) g = Inr (sr, g1)" "0 \<le> sr" "sr < rows m0" by blast
  from randrange_in_range [OF dims(2), of g1] obtain sc g2 where
    c: "randrange (cols m0) g1 = Inr (sc, g2)" "0 \<le> sc" "sc < cols m0" by blast
  from r c have s: "in_bounds m0 (sr, sc)" by (simp add: in_bounds_def)
  from carve_passage_result [OF f s, of g2] obtain mc g3 where
    p: "carve_passage m0 sr sc g2 = Some (Inr (mc, g3))" by blast
  show ?thesis
    using s p by (intro exI [of _ sr] exI [of _ sc] exI [of _ g2] exI [of _ mc] exI [of _ g3])
      (simp add: generate_def r(1) c(1))
qed

text \<open>
  Claim C3. On every freshly constructed maze, \<open>generate\<close> returns. It carves from
  an in-bounds cell and keeps the carved grid; if \<open>difficulty < 0.1\<close> the endpoints
  are \<open>(0, 0)\<close> and \<open>(1, 1)\<close>, if \<open>0.1 \<le> difficulty < 0.5\<close> they are \<open>(0, 0)\<close>
  and \<open>(rows - 1, cols - 1)\<close>, and otherwise they are the pair that
  \<open>_longest_path_endpoints\<close> returns on the carved maze.
\<close>

theorem generate_endpoint_policy:
  assumes "init rws cls csz cx df = Inr m0"
  shows "\<exists>start_r start_c g2 mc g3 m.
           in_bounds m0 (start_r, start_c) \<and>
           carve_passage m0 start_r start_c g2 = Some (Inr (mc, g3)) \<and>
           generate m0 g = Some (Inr (m, g3)) \<and> grid m = grid mc \<and>
           (df < 1 / 10 \<longrightarrow> start m = Some (0, 0) \<and> end_pos m = Some (1, 1)) \<and>
           (1 / 10 \<le> df \<and> df < 1 / 2 \<longrightarrow>
              start m = Some (0, 0) \<and> end_pos m = Some (rws - 1, cls - 1)) \<and>
           (1 / 2 \<le> df \<longrightarrow>
              (\<exists>a b. longest_path_endpoints mc = Some (Inr (a, b)) \<and>
                     start m = Some a \<and> end_pos m = Some b))"
proof -
  note f = init_fresh [OF assms]
  from assms have par: "rows m0 = rws" "cols m0 = cls" "difficulty m0 = df"
    by (auto simp: init_def split: if_splits)
  from generate_result [OF f, of g] obtain sr sc g2 mc g3 where
    s: "in_bounds m0 (sr, sc)" and p: "carve_passage m0 sr sc g2 = Some (Inr (mc, g3))"
    and gen: "generate m0 g =
             (if difficulty mc < 1 / 10 then
                Some (Inr (mc\<lparr>start := Some (0, 0), end_pos := Some (1, 1)\<rparr>, g3))
              else if difficulty mc < 1 / 2 then
                Some (Inr (mc\<lparr>start := Some (0, 0),
                              end_pos := Some (rows mc - 1, cols mc - 1)\<rparr>, g3))
              else
                (case longest_path_endpoints mc of
                   None \<Rightarrow> None
                 | Some (Inl e) \<Rightarrow> Some (Inl e)
                 | Some (Inr (a, b)) \<Rightarrow>
                     Some (Inr (mc\<lparr>start := Some a, end_pos := Some b\<rparr>, g3))))"
    by blast
  from carved_tree_maze(2) [OF f s p] par
  have mc: "rows mc = rws" "cols mc = cls" "difficulty mc = df"
    by (simp_all add: same_params_def)
  from f mc have "in_bounds mc (0, 0)" by (simp add: fresh_def par in_bounds_def)
  from longest_path_endpoints_diameter [OF carved_tree_maze(1) [OF f s p] this]
  obtain a b where ab: "longest_path_endpoints mc = Some (Inr (a, b))" by blast
  let ?m = "if df < 1 / 10 then mc\<lparr>start := Some (0, 0), end_pos := Some (1, 1)\<rparr>
            else if df < 1 / 2 then mc\<lparr>start := Some (0, 0), end_pos := Some (rws - 1, cls - 1)\<rparr>
            else mc\<lparr>start := Some a, end_pos := Some b\<rparr>"
  from gen have "generate m0 g = Some (Inr (?m, g3))" by (simp add: mc ab)
  with s p ab show ?thesis
    by (intro exI [of _ sr] exI [of _ sc] exI [of _ g2] exI [of _ mc] exI [of _ g3]
        exI [of _ ?m]) simp
qed

theorem generate_endpoint_policy_witness:
  "(\<exists>m g'. generate (projr (init 3 4 20 (1/2) (1/20))) (\<lambda>_. 0) = Some (Inr (m, g')) \<and>
       start m = Some (0, 0) \<and> end_pos m = Some (1, 1)) \<and>
   (\<exists>m g'. generate (projr (init 3 4 20 (1/2) (1/4))) (\<lambda>_. 0) = Some (Inr (m, g')) \<and>
       start m = Some (0, 0) \<and> end_pos m = Some (2, 3)) \<and>
   (\<exists>m g' mc a b. generate (projr (init 3 4 20 (1/2) (3/4))) (\<lambda>_. 0) = Some (Inr (m, g')) \<and>
       grid m = grid mc \<and> longest_path_endpoints mc = Some (Inr (a, b)) \<and>
       start m = Some a \<and> end_pos m = Some b)"
proof (intro conjI)
  have i: "init 3 4 20 (1/2) (1/20) = Inr (projr (init 3 4 20 (1/2) (1/20)))"
    by (simp add: init_def)
  from generate_endpoint_policy [OF i, of "\<lambda>_. 0"]
  show "\<exists>m g'. generate (projr (init 3 4 20 (1/2) (1/20))) (\<lambda>_. 0) = Some (Inr (m, g')) \<and>
       start m = Some (0, 0) \<and> end_pos m = Some (1, 1)"
  proof (elim exE conjE)
    fix m g3
    assume "generate (projr (init 3 4 20 (1/2) (1/20))) (\<lambda>_. 0) = Some (Inr (m, g3))"
      and "(1/20 :: rat) < 1 / 10 \<longrightarrow> start m = Some (0, 0) \<and> end_pos m = Some (1, 1)"
    then show ?thesis by (intro exI [of _ m] exI [of _ g3]) simp
  qed
next
  have i: "init 3 4 20 (1/2) (1/4) = Inr (projr (init 3 4 20 (1/2) (1/4)))"
    by (simp add: init_def)
  from generate_endpoint_policy [OF i, of "\<lambda>_. 0"]
  show "\<exists>m g'. generate (projr (init 3 4 20 (1/2) (1/4))) (\<lambda>_. 0) = Some (Inr (m, g')) \<and>
       start m = Some (0, 0) \<and> end_pos m = Some (2, 3)"
  proof (elim exE conjE)
    fix m g3
    assume "generate (projr (init 3 4 20 (1/2) (1/4))) (\<lambda>_. 0) = Some (Inr (m, g3))"
      and "(1 / 10 :: rat) \<le> 1/4 \<and> (1/4 :: rat) < 1 / 2 \<longrightarrow>
             start m = Some (0, 0) \<and> end_pos m = Some (3 - 1, 4 - 1)"
    then show ?thesis by (intro exI [of _ m] exI [of _ g3]) simp
  qed
next
  have i: "init 3 4 20 (1/2) (3/4) = Inr (projr (init 3 4 20 (1/2) (3/4)))"
    by (simp add: init_def)
  from generate_endpoint_policy [OF i, of "\<lambda>_. 0"]
  show "\<exists>m g' mc a b. generate (projr (init 3 4 20 (1/2) (3/4))) (\<lambda>_. 0) = Some (Inr (m, g')) \<and>
       grid m = grid mc \<and> longest_path_endpoints mc = Some (Inr (a, b)) \<and>
       start m = Some a \<and> end_pos m = Some b"
  proof (elim exE conjE)
    fix m g3 mc
    assume "generate (projr (init 3 4 20 (1/2) (3/4))) (\<lambda>_. 0) = Some (Inr (m, g3))"
      and "grid m = grid mc"
      and "(1 / 2 :: rat) \<le> 3/4 \<longrightarrow>
             (\<exists>a b. longest_path_endpoints mc = Some (Inr (a, b)) \<and>
                    start m = Some a \<and> end_pos m = Some b)"
    then show ?thesis by (intro exI [of _ m] exI [of _ g3] exI [of _ mc]) simp
  qed
qed

section \<open>Determinism\<close>

lemma unvisited_neighbours_cell_size:
  "unvisited_neighbours (m\<lparr>cell_size := c\<rparr>) = unvisited_neighbours m"
  by (simp add: unvisited_neighbours_def fun_eq_iff)

lemma carve_step_cell_size:
  "carve_step (with_cell_size c st) = map_sum id (with_cell_size c) (carve_step st)"
  by (simp add: carve_step_def with_cell_size_def unvisited_neighbours_cell_size Let_def
      split: prod.split sum.split)

lemma carve_loop_cell_size:
  "carve_loop (with_cell_size c st) =
     map_option (map_sum id (with_cell_size c)) (carve_loop st)"
proof -
  have "map_option (map_sum id (with_cell_size c)) (while_option carve_cond carve_body (Inr st))
      = while_option carve_cond carve_body (map_sum id (with_cell_size c) (Inr st))"
  proof (rule while_option_commute)
    fix x :: "error + carve_state"
    show "carve_cond x = carve_cond (map_sum id (with_cell_size c) x)"
      by (cases x) (simp_all add: carve_cond_def with_cell_size_def)
    show "map_sum id (with_cell_size c) (carve_body x) =
            carve_body (map_sum id (with_cell_size c) x)"
      by (cases x) (simp_all add: carve_body_def carve_step_cell_size)
  qed
  then show ?thesis by (simp add: carve_loop_def)
qed

lemma carve_passage_cell_size:
  "carve_passage (m\<lparr>cell_size := c\<rparr>) sr sc g =
     map_option (map_sum id (\<lambda>(r, g'). (r\<lparr>cell_size := c\<rparr>, g'))) (carve_passage m sr sc g)"
proof (cases "carve_start m sr sc g")
  case (Inl e)
  then show ?thesis
    by (auto simp: carve_passage_def carve_start_def split: sum.splits)
next
  case (Inr st)
  then have st': "carve_start (m\<lparr>cell_size := c\<rparr>) sr sc g = Inr (with_cell_size c st)"
    by (auto simp: carve_start_def with_cell_size_def split: sum.splits)
  have eq: "map_option (map_sum id (\<lambda>s. (self s, rand s)))
          (map_option (map_sum id (with_cell_size c)) (carve_loop st)) =
        map_option (map_sum id (\<lambda>(r, g'). (r\<lparr>cell_size := c\<rparr>, g')))
          (map_option (map_sum id (\<lambda>s. (self s, rand s))) (carve_loop st))"
    by (simp add: option.map_comp sum.map_comp comp_def with_cell_size_def)
  show ?thesis
    unfolding carve_passage_def Inr st' carve_loop_cell_size sum.case by (rule eq)
qed

lemma bfs_visit_cell_size: "bfs_visit (m\<lparr>cell_size := c\<rparr>) = bfs_visit m"
  by (simp add: bfs_visit_def fun_eq_iff)

lemma bfs_for_cell_size: "bfs_for (m\<lparr>cell_size := c\<rparr>) rc ds st = bfs_for m rc ds st"
  by (induction ds arbitrary: st) (simp_all add: bfs_visit_cell_size cong: sum.case_cong)

lemma bfs_cell_size: "bfs (m\<lparr>cell_size := c\<rparr>) = bfs m"
proof -
  have step: "bfs_step (m\<lparr>cell_size := c\<rparr>) = bfs_step m"
    by (rule ext) (simp add: bfs_step_def bfs_for_cell_size cong: sum.case_cong)
  have body: "bfs_body (m\<lparr>cell_size := c\<rparr>) = bfs_body m"
    by (rule ext) (simp add: bfs_body_def step cong: sum.case_cong)
  have loop: "bfs_loop (m\<lparr>cell_size := c\<rparr>) = bfs_loop m"
    by (rule ext) (simp add: bfs_loop_def body)
  have start: "bfs_start (m\<lparr>cell_size := c\<rparr>) = bfs_start m"
    by (rule ext) (simp add: bfs_start_def)
  show ?thesis
    by (rule ext) (simp add: bfs_def loop start cong: sum.case_cong)
qed

lemma longest_path_endpoints_cell_size:
  "longest_path_endpoints (m\<lparr>cell_size := c\<rparr>) = longest_path_endpoints m"
  unfolding longest_path_endpoints_def bfs_cell_size by (rule refl)

lemma generate_cell_size:
  assumes f: "fresh m"
  shows "\<exists>r g'. generate m g = Some (Inr (r, g')) \<and>
           generate (m\<lparr>cell_size := c\<rparr>) g = Some (Inr (r\<lparr>cell_size := c\<rparr>, g'))"
proof -
  from f have dims: "0 < rows m" "0 < cols m" by (simp_all add: fresh_def)
  from randrange_in_range [OF dims(1), of g] obtain sr g1 where
    r: "randrange (rows m) g = Inr (sr, g1)" "0 \<le> sr" "sr < rows m" by blast
  from randrange_in_range [OF dims(2), of g1] obtain sc g2 where
    c: "randrange (cols m) g1 = Inr (sc, g2)" "0 \<le> sc" "sc < cols m" by blast
  from r c have s: "in_bounds m (sr, sc)" by (simp add: in_bounds_def)
  from carve_passage_result [OF f s, of g2] obtain mc g3 where
    p: "carve_passage m sr sc g2 = Some (Inr (mc, g3))" by blast
  then have p': "carve_passage (m\<lparr>cell_size := c\<rparr>) sr sc g2 =
      Some (Inr (mc\<lparr>cell_size := c\<rparr>, g3))"
    by (simp add: carve_passage_cell_size)
  from longest_path_endpoints_diameter [OF carved_tree_maze(1) [OF f s p]]
    carved_tree_maze(2) [OF f s p] dims
  obtain a b where ab: "longest_path_endpoints mc = Some (Inr (a, b))"
    by (auto simp: in_bounds_def same_params_def)
  let ?r = "if difficulty mc < 1 / 10 then mc\<lparr>start := Some (0, 0), end_pos := Some (1, 1)\<rparr>
            else if difficulty mc < 1 / 2
              then mc\<lparr>start := Some (0, 0), end_pos := Some (rows mc - 1, cols mc - 1)\<rparr>
            else mc\<lparr>start := Some a, end_pos := Some b\<rparr>"
  have 1: "generate m g = Some (Inr (?r, g3))"
    by (simp add: generate_def r(1) c(1) p ab)
  have 2: "generate (m\<lparr>cell_size := c\<rparr>) g = Some (Inr (?r\<lparr>cell_size := c\<rparr>, g3))"
    by (simp add: generate_def r(1) c(1) p' ab longest_path_endpoints_cell_size)
  from 1 2 show ?thesis by blast
qed

text \<open>
  Claim C9. Two mazes constructed with the same \<open>rows\<close>, \<open>cols\<close>,
  \<open>complexity\<close> and \<open>difficulty\<close> (the cell size may differ), generated from the
  same state of the random generator: both runs return, with the same grid, the same
  endpoints and the same final generator state.
\<close>

theorem generate_deterministic:
  assumes "init rws cls csz1 cx df = Inr m1" and "init rws cls csz2 cx df = Inr m2"
  shows "\<exists>r1 r2 g'. generate m1 g = Some (Inr (r1, g')) \<and> generate m2 g = Some (Inr (r2, g')) \<and>
           grid r1 = grid r2 \<and> start r1 = start r2 \<and> end_pos r1 = end_pos r2"
proof -
  from assms have m2: "m2 = m1\<lparr>cell_size := csz2\<rparr>"
    by (auto simp: init_def split: if_splits)
  from generate_cell_size [OF init_fresh [OF assms(1)], of g csz2] obtain r1 g' where
    r1: "generate m1 g = Some (Inr (r1, g'))"
    and r2: "generate m2 g = Some (Inr (r1\<lparr>cell_size := csz2\<rparr>, g'))"
    unfolding m2 by blast
  then show ?thesis
    by (intro exI [of _ r1] exI [of _ "r1\<lparr>cell_size := csz2\<rparr>"] exI [of _ g']) simp
qed

theorem generate_deterministic_witness:
  "\<exists>r1 r2 g'. generate (projr (init 3 4 20 (1/2) (3/4))) (\<lambda>_. 0) = Some (Inr (r1, g')) \<and>
      generate (projr (init 3 4 18 (1/2) (3/4))) (\<lambda>_. 0) = Some (Inr (r2, g')) \<and>
      grid r1 = grid r2 \<and> start r1 = start r2 \<and> end_pos r1 = end_pos r2"
proof -
  have i1: "init 3 4 20 (1/2) (3/4) = Inr (projr (init 3 4 20 (1/2) (3/4)))"
    by (simp add: init_def)
  have i2: "init 3 4 18 (1/2) (3/4) = Inr (projr (init 3 4 18 (1/2) (3/4)))"
    by (simp add: init_def)
  from generate_deterministic [OF i1 i2, of "\<lambda>_. 0"] show ?thesis .
qed

end
